theory Spec2Isabelle
  imports Main "HOL-Library.AList"
begin

section \<open>Python values\<close>

text \<open>
  The logger of \<^verbatim>\<open>tools/logging/python/logger.py\<close> moves untyped keyword arguments
  around. Their values are modelled by the JSON-like universe below (no floats, dictionary
  keys are strings). A dictionary is an association list in insertion order, as Python
  dictionaries are; it is well formed when its keys are distinct.
\<close>

datatype pyval =
    PNone
  | PBool bool
  | PInt int
  | PStr string
  | PList "pyval list"
  | PDict "(string \<times> pyval) list"

type_synonym pydict = "(string \<times> pyval) list"

datatype py_error = TypeError | AttributeError | ValueError

text \<open>Truth value testing (\<^verbatim>\<open>if x:\<close>, \<^verbatim>\<open>x or y\<close>).\<close>

fun truthy :: "pyval \<Rightarrow> bool" where
  "truthy PNone = False"
| "truthy (PBool b) = b"
| "truthy (PInt i) = (i \<noteq> 0)"
| "truthy (PStr s) = (s \<noteq> [])"
| "truthy (PList xs) = (xs \<noteq> [])"
| "truthy (PDict d) = (d \<noteq> [])"

definition py_or :: "pyval \<Rightarrow> pyval \<Rightarrow> pyval" where
  "py_or a b = (if truthy a then a else b)"

subsection \<open>Dictionary operations\<close>

text \<open>
  \<^verbatim>\<open>d[k] = v\<close> is \<^const>\<open>AList.update\<close> (an existing key keeps its place, a new
  key goes to the end), \<^verbatim>\<open>d.pop(k, None)\<close> leaves \<^const>\<open>AList.delete\<close>, and a
  lookup is \<^const>\<open>map_of\<close>.
\<close>

definition dict_get :: "pydict \<Rightarrow> string \<Rightarrow> pyval \<Rightarrow> pyval" where
  "dict_get d k dflt = (case map_of d k of Some v \<Rightarrow> v | None \<Rightarrow> dflt)"

definition dict_has :: "pydict \<Rightarrow> string \<Rightarrow> bool" where
  "dict_has d k = (map_of d k \<noteq> None)"

definition dict_keys :: "pydict \<Rightarrow> string list" where
  "dict_keys d = map fst d"

text \<open>\<^verbatim>\<open>d.update(other)\<close>: every item of \<open>other\<close> is stored, in order.\<close>

definition dict_update :: "pydict \<Rightarrow> pydict \<Rightarrow> pydict" where
  "dict_update d other = fold (\<lambda>(k, v) acc. AList.update k v acc) other d"

subsection \<open>Strings\<close>

text \<open>
  A Python string is modelled by its UTF-8 encoding: a list of bytes in which a character
  (a code point) is one byte below 128, or a lead byte followed by continuation bytes.
  \<^verbatim>\<open>lower\<close> and \<^verbatim>\<open>upper\<close> act on the ASCII letters; no key of the table of level
  weights is the lower case of a string with another letter in it.
\<close>

definition char_lower :: "char \<Rightarrow> char" where
  "char_lower c = (let n = (of_char c :: nat) in if 65 \<le> n \<and> n \<le> 90 then char_of (n + 32) else c)"

definition char_upper :: "char \<Rightarrow> char" where
  "char_upper c = (let n = (of_char c :: nat) in if 97 \<le> n \<and> n \<le> 122 then char_of (n - 32) else c)"

definition lower :: "string \<Rightarrow> string" where
  "lower s = map char_lower s"

definition upper :: "string \<Rightarrow> string" where
  "upper s = map char_upper s"

fun startswith :: "string \<Rightarrow> string \<Rightarrow> bool" where
  "startswith s [] = True"
| "startswith [] (p # ps) = False"
| "startswith (c # cs) (p # ps) = (c = p \<and> startswith cs ps)"

text \<open>\<^verbatim>\<open>sub in s\<close>\<close>

fun contains :: "string \<Rightarrow> string \<Rightarrow> bool" where
  "contains [] sub = (sub = [])"
| "contains (c # cs) sub = (startswith (c # cs) sub \<or> contains cs sub)"

text \<open>\<^verbatim>\<open>sep.join(parts)\<close>\<close>

fun join :: "string \<Rightarrow> string list \<Rightarrow> string" where
  "join sep [] = []"
| "join sep [x] = x"
| "join sep (x # y # xs) = x @ sep @ join sep (y # xs)"

text \<open>\<^verbatim>\<open>s[:n]\<close>: the first \<open>n\<close> characters, each with its continuation bytes.\<close>

definition is_continuation :: "char \<Rightarrow> bool" where
  "is_continuation c = (let n = (of_char c :: nat) in 128 \<le> n \<and> n < 192)"

fun take_chars :: "nat \<Rightarrow> string \<Rightarrow> string" where
  "take_chars n [] = []"
| "take_chars n (c # cs) =
     (if is_continuation c then c # take_chars n cs
      else (case n of 0 \<Rightarrow> [] | Suc m \<Rightarrow> c # take_chars m cs))"

text \<open>\<^verbatim>\<open>s.replace("Z", "+00:00")\<close>\<close>

fun replace_Z :: "string \<Rightarrow> string" where
  "replace_Z [] = []"
| "replace_Z (c # cs) = (if c = CHR ''Z'' then ''+00:00'' @ replace_Z cs else c # replace_Z cs)"

subsection \<open>Decimal and hexadecimal digits\<close>

definition digit_char :: "nat \<Rightarrow> char" where
  "digit_char d = char_of (48 + d)"

function digits :: "nat \<Rightarrow> string" where
  "digits n = (if n < 10 then [digit_char n] else digits (n div 10) @ [digit_char (n mod 10)])"
  by pat_completeness auto
termination
  by (relation "measure (\<lambda>n. n)") auto

declare digits.simps [simp del]

text \<open>\<^verbatim>\<open>str(i)\<close> for an integer.\<close>

definition str_int :: "int \<Rightarrow> string" where
  "str_int i = (if i < 0 then CHR ''-'' # digits (nat (- i)) else digits (nat i))"

definition hex_digit :: "nat \<Rightarrow> char" where
  "hex_digit d = (if d < 10 then char_of (48 + d) else char_of (87 + d))"

subsection \<open>\<^verbatim>\<open>str\<close> and \<^verbatim>\<open>repr\<close>\<close>

text \<open>
  \<^verbatim>\<open>repr\<close> of a string picks double quotes when the text has a single quote and no
  double quote, escapes the backslash, the chosen quote, tab, newline and carriage return,
  and writes the other ASCII control characters as \<^verbatim>\<open>\xNN\<close>. Bytes above 127 stand for
  the UTF-8 encoding of printable text and stay as they are.
\<close>

definition repr_char :: "char \<Rightarrow> char \<Rightarrow> string" where
  "repr_char q c =
     (let n = (of_char c :: nat) in
      if c = q \<or> c = CHR 0x5C then [CHR 0x5C, c]
      else if n = 9 then [CHR 0x5C, CHR ''t'']
      else if n = 10 then [CHR 0x5C, CHR ''n'']
      else if n = 13 then [CHR 0x5C, CHR ''r'']
      else if n < 32 \<or> n = 127 then [CHR 0x5C, CHR ''x'', hex_digit (n div 16), hex_digit (n mod 16)]
      else [c])"

definition repr_str :: "string \<Rightarrow> string" where
  "repr_str s =
     (let q = (if CHR 0x27 \<in> set s \<and> CHR 0x22 \<notin> set s then CHR 0x22 else CHR 0x27)
      in q # concat (map (repr_char q) s) @ [q])"

fun repr :: "pyval \<Rightarrow> string"
  and repr_elems :: "pyval list \<Rightarrow> string"
  and repr_items :: "(string \<times> pyval) list \<Rightarrow> string" where
  "repr PNone = ''None''"
| "repr (PBool b) = (if b then ''True'' else ''False'')"
| "repr (PInt i) = str_int i"
| "repr (PStr s) = repr_str s"
| "repr (PList xs) = ''['' @ repr_elems xs @ '']''"
| "repr (PDict d) = ''{'' @ repr_items d @ ''}''"
| "repr_elems [] = []"
| "repr_elems [x] = repr x"
| "repr_elems (x # y # xs) = repr x @ '', '' @ repr_elems (y # xs)"
| "repr_items [] = []"
| "repr_items [(k, v)] = repr_str k @ '': '' @ repr v"
| "repr_items ((k, v) # p # ps) = repr_str k @ '': '' @ repr v @ '', '' @ repr_items (p # ps)"

text \<open>\<^verbatim>\<open>str(v)\<close>, also what an f-string writes for \<^verbatim>\<open>{v}\<close>.\<close>

definition py_str :: "pyval \<Rightarrow> string" where
  "py_str v = (case v of PStr s \<Rightarrow> s | _ \<Rightarrow> repr v)"

subsection \<open>\<^verbatim>\<open>json.dumps\<close> with \<^verbatim>\<open>ensure_ascii=False\<close>\<close>

definition json_char :: "char \<Rightarrow> string" where
  "json_char c =
     (let n = (of_char c :: nat) in
      if n = 34 then [CHR 0x5C, CHR 0x22]
      else if n = 92 then [CHR 0x5C, CHR 0x5C]
      else if n = 8 then [CHR 0x5C, CHR ''b'']
      else if n = 9 then [CHR 0x5C, CHR ''t'']
      else if n = 10 then [CHR 0x5C, CHR ''n'']
      else if n = 12 then [CHR 0x5C, CHR ''f'']
      else if n = 13 then [CHR 0x5C, CHR ''r'']
      else if n < 32 then [CHR 0x5C, CHR ''u'', CHR ''0'', CHR ''0'', hex_digit (n div 16), hex_digit (n mod 16)]
      else [c])"

definition json_str :: "string \<Rightarrow> string" where
  "json_str s = CHR 0x22 # concat (map json_char s) @ [CHR 0x22]"

text \<open>\<^verbatim>\<open>json.dumps(v, separators=(",", ":"), ensure_ascii=False)\<close>\<close>

fun json_compact :: "pyval \<Rightarrow> string"
  and json_compact_elems :: "pyval list \<Rightarrow> string"
  and json_compact_items :: "(string \<times> pyval) list \<Rightarrow> string" where
  "json_compact PNone = ''null''"
| "json_compact (PBool b) = (if b then ''true'' else ''false'')"
| "json_compact (PInt i) = str_int i"
| "json_compact (PStr s) = json_str s"
| "json_compact (PList xs) = ''['' @ json_compact_elems xs @ '']''"
| "json_compact (PDict d) = ''{'' @ json_compact_items d @ ''}''"
| "json_compact_elems [] = []"
| "json_compact_elems [x] = json_compact x"
| "json_compact_elems (x # y # xs) = json_compact x @ '','' @ json_compact_elems (y # xs)"
| "json_compact_items [] = []"
| "json_compact_items [(k, v)] = json_str k @ '':'' @ json_compact v"
| "json_compact_items ((k, v) # p # ps) =
     json_str k @ '':'' @ json_compact v @ '','' @ json_compact_items (p # ps)"

text \<open>
  \<^verbatim>\<open>json.dumps(v, indent=2, ensure_ascii=False)\<close>; the first argument is the nesting
  level of the value being written.
\<close>

definition newline_indent :: "nat \<Rightarrow> string" where
  "newline_indent lvl = CHR 0x0A # replicate (2 * lvl) CHR '' ''"

fun json_indent :: "nat \<Rightarrow> pyval \<Rightarrow> string"
  and json_indent_elems :: "nat \<Rightarrow> pyval list \<Rightarrow> string"
  and json_indent_items :: "nat \<Rightarrow> (string \<times> pyval) list \<Rightarrow> string" where
  "json_indent lvl PNone = ''null''"
| "json_indent lvl (PBool b) = (if b then ''true'' else ''false'')"
| "json_indent lvl (PInt i) = str_int i"
| "json_indent lvl (PStr s) = json_str s"
| "json_indent lvl (PList xs) =
     (if xs = [] then ''[]''
      else ''['' @ newline_indent (Suc lvl) @ json_indent_elems (Suc lvl) xs @ newline_indent lvl @ '']'')"
| "json_indent lvl (PDict d) =
     (if d = [] then ''{}''
      else ''{'' @ newline_indent (Suc lvl) @ json_indent_items (Suc lvl) d @ newline_indent lvl @ ''}'')"
| "json_indent_elems lvl [] = []"
| "json_indent_elems lvl [x] = json_indent lvl x"
| "json_indent_elems lvl (x # y # xs) =
     json_indent lvl x @ '','' @ newline_indent lvl @ json_indent_elems lvl (y # xs)"
| "json_indent_items lvl [] = []"
| "json_indent_items lvl [(k, v)] = json_str k @ '': '' @ json_indent lvl v"
| "json_indent_items lvl ((k, v) # p # ps) =
     json_str k @ '': '' @ json_indent lvl v @ '','' @ newline_indent lvl @ json_indent_items lvl (p # ps)"

section \<open>Configuration\<close>

definition LEVEL_WEIGHTS :: "(string \<times> int) list" where
  "LEVEL_WEIGHTS =
     [(''debug'', 10), (''info'', 20), (''warn'', 30), (''warning'', 30), (''error'', 40)]"

text \<open>\<^verbatim>\<open>LEVEL_WEIGHTS.get(level, dflt)\<close>\<close>

definition level_weight :: "string \<Rightarrow> int \<Rightarrow> int" where
  "level_weight level dflt = (case map_of LEVEL_WEIGHTS level of Some wt \<Rightarrow> wt | None \<Rightarrow> dflt)"

definition OPTIONAL_ROOT_FIELDS :: "string list" where
  "OPTIONAL_ROOT_FIELDS =
     [''request_id'', ''user_hash'', ''source'', ''duration_ms'', ''status_code'', ''tags'',
      ''trace_id'', ''span_id'']"

definition LEVEL_COLORS :: "(string \<times> string) list" where
  "LEVEL_COLORS =
     [(''debug'', CHR 0x1B # ''[36m''), (''info'', CHR 0x1B # ''[32m''),
      (''warn'', CHR 0x1B # ''[33m''), (''error'', CHR 0x1B # ''[31m'')]"

definition level_color :: "string \<Rightarrow> string" where
  "level_color level = (case map_of LEVEL_COLORS level of Some c \<Rightarrow> c | None \<Rightarrow> [])"

definition COLOR_RESET :: string where
  "COLOR_RESET = CHR 0x1B # ''[0m''"

definition COLOR_DIM :: string where
  "COLOR_DIM = CHR 0x1B # ''[2m''"

definition COLOR_BOLD :: string where
  "COLOR_BOLD = CHR 0x1B # ''[1m''"

text \<open>
  The module's \<^verbatim>\<open>config\<close> dictionary is a literal with six fixed keys, read from the
  environment once; it is a record here.
\<close>

record config =
  service :: string
  environment :: string
  log_target :: string
  log_level :: string
  force_pretty :: bool
  version :: string

text \<open>
  What the platform supplies: the line separator \<^verbatim>\<open>os.linesep\<close>, and the standard
  library's \<^verbatim>\<open>datetime.fromisoformat(s).strftime("%H:%M:%S")\<close>, which is \<open>None\<close>
  where \<^verbatim>\<open>fromisoformat\<close> raises.
\<close>

record platform =
  linesep :: string
  iso_hms :: "string \<Rightarrow> string option"

section \<open>The event id generator\<close>

text \<open>
  The process state: the module-level \<^verbatim>\<open>_event_id_counter\<close>, and what has been written,
  in order, each write with the stream it went to (\<open>None\<close> is \<^verbatim>\<open>sys.stdout\<close>).
\<close>

record world =
  event_id_counter :: int
  written :: "(nat option \<times> string) list"

text \<open>
  \<^verbatim>\<open>generate_event_id\<close>; \<open>now_ms\<close> is the clock reading
  \<^verbatim>\<open>int(datetime.now(timezone.utc).timestamp() * 1000)\<close>.
\<close>

definition generate_event_id :: "int \<Rightarrow> world \<Rightarrow> string \<times> world" where
  "generate_event_id now_ms w =
     (let c = event_id_counter w + 1
      in (''evt_'' @ str_int now_ms @ ''_'' @ str_int c, w\<lparr>event_id_counter := c\<rparr>))"

section \<open>The structured logger\<close>

record logger =
  config :: config
  bindings :: pydict
  pretty :: bool
  colorize :: bool
  stream :: "nat option"
  level_threshold :: int

text \<open>\<^verbatim>\<open>StructuredLogger.__init__\<close>; \<^verbatim>\<open>bindings or {}\<close> turns \<open>None\<close> into the empty dictionary.\<close>

definition StructuredLogger ::
  "config \<Rightarrow> pydict option \<Rightarrow> bool \<Rightarrow> bool \<Rightarrow> nat option \<Rightarrow> logger" where
  "StructuredLogger cfg b p c s =
     \<lparr>config = cfg,
      bindings = (case b of None \<Rightarrow> [] | Some d \<Rightarrow> d),
      pretty = p, colorize = c, stream = s,
      level_threshold = level_weight (log_level cfg) 20\<rparr>"

subsection \<open>Logger factories\<close>

text \<open>The loop of \<^verbatim>\<open>child\<close> over the keyword arguments, on the copy of the bindings.\<close>

definition merge_bindings :: "pydict \<Rightarrow> pydict \<Rightarrow> pydict" where
  "merge_bindings merged kw =
     fold (\<lambda>(key, val) m. if val \<noteq> PNone then AList.update key val m else m) kw merged"

definition child :: "logger \<Rightarrow> pydict \<Rightarrow> logger" where
  "child self kw =
     StructuredLogger (config self) (Some (merge_bindings (bindings self) kw))
       (pretty self) (colorize self) (stream self)"

definition create_logger :: "logger \<Rightarrow> pyval \<Rightarrow> pyval \<Rightarrow> pyval \<Rightarrow> pyval \<Rightarrow> logger" where
  "create_logger self svc env ver cat =
     child self
       [(''service'', py_or svc (PStr (service (config self)))),
        (''environment'', py_or env (PStr (environment (config self)))),
        (''version'', py_or ver (PStr (version (config self)))),
        (''category'', py_or cat (PStr ''app''))]"

definition bind :: "logger \<Rightarrow> pydict \<Rightarrow> logger" where
  "bind self kw = child self kw"

definition with_category :: "logger \<Rightarrow> pyval \<Rightarrow> logger" where
  "with_category self category = child self [(''category'', category)]"

definition bind_trace :: "logger \<Rightarrow> pyval \<Rightarrow> pyval \<Rightarrow> logger" where
  "bind_trace self trace_id span_id = child self [(''trace_id'', trace_id), (''span_id'', span_id)]"

definition with_request :: "logger \<Rightarrow> pyval \<Rightarrow> pyval \<Rightarrow> logger" where
  "with_request self request_id user_hash =
     child self [(''request_id'', request_id), (''user_hash'', user_hash)]"

subsection \<open>Assembling an entry\<close>

text \<open>First loop of \<^verbatim>\<open>_prepare_entry\<close>: the bound optional root fields.\<close>

definition bound_root_fields :: "pydict \<Rightarrow> pydict \<Rightarrow> pydict" where
  "bound_root_fields bnd entry =
     fold (\<lambda>field e.
             let bound_value = dict_get bnd field PNone
             in if bound_value \<noteq> PNone then AList.update field bound_value e else e)
       OPTIONAL_ROOT_FIELDS entry"

text \<open>
  Second loop: an optional root field given at the call overrides the bound one, and an
  explicit \<open>None\<close> removes it. The state is the pair of \<open>extra\<close> and \<open>entry\<close>.
\<close>

definition call_root_field :: "string \<Rightarrow> pydict \<times> pydict \<Rightarrow> pydict \<times> pydict" where
  "call_root_field field st =
     (case st of (extra, entry) \<Rightarrow>
        if dict_has extra field then
          (let val = dict_get extra field PNone; extra' = AList.delete field extra
           in if val \<noteq> PNone then (extra', AList.update field val entry)
              else if dict_has entry field then (extra', AList.delete field entry)
              else (extra', entry))
        else (extra, entry))"

definition call_root_fields :: "pydict \<times> pydict \<Rightarrow> pydict \<times> pydict" where
  "call_root_fields st = fold call_root_field OPTIONAL_ROOT_FIELDS st"

text \<open>Third loop: the remaining keyword arguments go into the context, \<open>None\<close> left out.\<close>

definition extra_into_context :: "pydict \<Rightarrow> pydict \<Rightarrow> pydict" where
  "extra_into_context extra context =
     fold (\<lambda>(key, val) c. if val \<noteq> PNone then AList.update key val c else c) extra context"

text \<open>Last loop: every root key whose value is \<open>None\<close> is popped.\<close>

definition drop_none :: "pydict \<Rightarrow> pydict" where
  "drop_none entry =
     fold (\<lambda>key e. if map_of e key = Some PNone then AList.delete key e else e)
       (dict_keys entry) entry"

text \<open>
  \<^verbatim>\<open>_prepare_entry\<close>. \<open>now_iso\<close> is the clock reading
  \<^verbatim>\<open>datetime.now(timezone.utc).isoformat()\<close> and \<open>now_ms\<close> the one taken by
  \<^const>\<open>generate_event_id\<close>, which is called before \<^verbatim>\<open>extra.pop("event_id", ...)\<close>
  looks at \<open>extra\<close>: Python evaluates the default argument first.
\<close>

definition prepare_entry ::
  "logger \<Rightarrow> string \<Rightarrow> string \<Rightarrow> pydict \<Rightarrow> string \<Rightarrow> int \<Rightarrow> world \<Rightarrow> pydict \<times> world" where
  "prepare_entry self level message extra0 now_iso now_ms w =
     (let context_arg = dict_get extra0 ''context'' PNone;
          extra1 = AList.delete ''context'' extra0;
          context0 = (case context_arg of PDict d \<Rightarrow> dict_update [] d | _ \<Rightarrow> []);
          (generated, w') = generate_event_id now_ms w;
          event_id = dict_get extra1 ''event_id'' (PStr generated);
          extra2 = AList.delete ''event_id'' extra1;
          entry0 =
            [(''timestamp'', PStr now_iso),
             (''level'', PStr level),
             (''message'', PStr message),
             (''service'', dict_get (bindings self) ''service'' (PStr (service (config self)))),
             (''environment'',
                dict_get (bindings self) ''environment'' (PStr (environment (config self)))),
             (''version'', dict_get (bindings self) ''version'' (PStr (version (config self)))),
             (''category'', dict_get (bindings self) ''category'' (PStr ''app'')),
             (''event_id'', event_id)];
          entry1 = bound_root_fields (bindings self) entry0;
          (extra3, entry2) = call_root_fields (extra2, entry1);
          context = extra_into_context extra3 context0;
          entry3 = AList.update ''context'' (PDict context) entry2
      in (drop_none entry3, w'))"

text \<open>The context mapping of an assembled entry.\<close>

definition entry_context :: "pydict \<Rightarrow> pydict" where
  "entry_context entry = (case map_of entry ''context'' of Some (PDict c) \<Rightarrow> c | _ \<Rightarrow> [])"

subsection \<open>Rendering\<close>

definition apply_color :: "logger \<Rightarrow> pyval \<Rightarrow> string \<Rightarrow> pyval" where
  "apply_color self text code =
     (if \<not> colorize self \<or> code = [] then text else PStr (code @ py_str text @ COLOR_RESET))"

text \<open>The three optional segments of the pretty line, as \<^verbatim>\<open>_format_pretty\<close> appends them.\<close>

definition category_segment :: "pydict \<Rightarrow> pyval list" where
  "category_segment entry =
     (let category = dict_get entry ''category'' (PStr [])
      in if truthy category \<and> category \<noteq> PStr ''app'' then [category] else [])"

definition trace_segment :: "pydict \<Rightarrow> pyval list" where
  "trace_segment entry =
     (let trace_id = dict_get entry ''trace_id'' PNone
      in if truthy trace_id then [PStr (''['' @ take_chars 8 (py_str trace_id) @ ''...]'')]
         else [])"

definition duration_segment :: "pydict \<Rightarrow> pyval list" where
  "duration_segment entry =
     (if dict_has entry ''duration_ms''
      then [PStr (''('' @ py_str (dict_get entry ''duration_ms'' PNone) @ ''ms)'')] else [])"

text \<open>\<^verbatim>\<open>" ".join(...)\<close> raises \<^verbatim>\<open>TypeError\<close> on an item that is not a string.\<close>

fun str_items :: "pyval list \<Rightarrow> string list option" where
  "str_items [] = Some []"
| "str_items (PStr s # vs) = map_option (\<lambda>ss. s # ss) (str_items vs)"
| "str_items (v # vs) = None"

text \<open>The parts for the time, the level and the service, with which the line begins.\<close>

definition pretty_head :: "platform \<Rightarrow> logger \<Rightarrow> pydict \<Rightarrow> string \<Rightarrow> pyval list" where
  "pretty_head plat self entry level =
     (let timestamp0 = dict_get entry ''timestamp'' (PStr []);
          timestamp =
            (case timestamp0 of
               PStr s \<Rightarrow>
                 if s \<noteq> [] then
                   (case iso_hms plat (replace_Z s) of Some t \<Rightarrow> PStr t | None \<Rightarrow> timestamp0)
                 else timestamp0
             | _ \<Rightarrow> timestamp0);
          svc = dict_get entry ''service'' (PStr [])
      in (if truthy timestamp then [apply_color self timestamp COLOR_DIM] else [])
         @ [apply_color self (PStr (upper level)) (level_color level)]
         @ (if truthy svc then [apply_color self svc COLOR_BOLD] else []))"

text \<open>The list \<^verbatim>\<open>parts\<close> of \<^verbatim>\<open>_format_pretty\<close>, before the empty parts are left out.\<close>

definition pretty_parts :: "platform \<Rightarrow> logger \<Rightarrow> pydict \<Rightarrow> string \<Rightarrow> pyval list" where
  "pretty_parts plat self entry level =
     pretty_head plat self entry level
     @ category_segment entry
     @ trace_segment entry
     @ duration_segment entry
     @ [PStr ''-'', dict_get entry ''message'' (PStr [])]"

text \<open>
  \<^verbatim>\<open>_format_pretty\<close>. A level that is not a string has no \<^verbatim>\<open>lower\<close>
  (\<^verbatim>\<open>AttributeError\<close>); a timestamp that is not a string is kept, the exception of its
  \<^verbatim>\<open>replace\<close> being swallowed.
\<close>

definition format_pretty :: "platform \<Rightarrow> logger \<Rightarrow> pydict \<Rightarrow> py_error + string" where
  "format_pretty plat self entry =
     (case py_or (dict_get entry ''level'' PNone) (PStr ''info'') of
        PStr lv \<Rightarrow>
          (case str_items (filter truthy (pretty_parts plat self entry (lower lv))) of
             None \<Rightarrow> Inl TypeError
           | Some parts \<Rightarrow>
               (let line = join '' '' parts;
                    context = py_or (dict_get entry ''context'' PNone) (PDict [])
                in if truthy context
                   then Inr (line @ [CHR 0x0A]
                             @ py_str (apply_color self (PStr (json_indent 0 context)) COLOR_DIM))
                   else Inr line))
      | _ \<Rightarrow> Inl AttributeError)"

text \<open>
  \<^verbatim>\<open>_emit\<close>: one write of the rendered entry and the line separator. The result is the
  exception raised, if any, and the process state left behind.
\<close>

definition emit :: "platform \<Rightarrow> logger \<Rightarrow> pydict \<Rightarrow> world \<Rightarrow> py_error option \<times> world" where
  "emit plat self entry w =
     (if pretty self then
        (case format_pretty plat self entry of
           Inl e \<Rightarrow> (Some e, w)
         | Inr output \<Rightarrow> (None, w\<lparr>written := written w @ [(stream self, output @ linesep plat)]\<rparr>))
      else
        (None, w\<lparr>written := written w @ [(stream self, json_compact (PDict entry) @ linesep plat)]\<rparr>))"

subsection \<open>Core logging\<close>

definition log ::
  "platform \<Rightarrow> logger \<Rightarrow> string \<Rightarrow> string \<Rightarrow> pydict \<Rightarrow> string \<Rightarrow> int \<Rightarrow> world
     \<Rightarrow> py_error option \<times> world" where
  "log plat self level0 message kwargs now_iso now_ms w =
     (let level = lower level0
      in if level_weight level 0 < level_threshold self then (None, w)
         else (case prepare_entry self level message kwargs now_iso now_ms w of
                 (entry, w') \<Rightarrow> emit plat self entry w'))"

definition debug ::
  "platform \<Rightarrow> logger \<Rightarrow> string \<Rightarrow> pydict \<Rightarrow> string \<Rightarrow> int \<Rightarrow> world \<Rightarrow> py_error option \<times> world" where
  "debug plat self message kwargs = log plat self ''debug'' message kwargs"

definition info ::
  "platform \<Rightarrow> logger \<Rightarrow> string \<Rightarrow> pydict \<Rightarrow> string \<Rightarrow> int \<Rightarrow> world \<Rightarrow> py_error option \<times> world" where
  "info plat self message kwargs = log plat self ''info'' message kwargs"

definition warn ::
  "platform \<Rightarrow> logger \<Rightarrow> string \<Rightarrow> pydict \<Rightarrow> string \<Rightarrow> int \<Rightarrow> world \<Rightarrow> py_error option \<times> world" where
  "warn plat self message kwargs = log plat self ''warn'' message kwargs"

definition error ::
  "platform \<Rightarrow> logger \<Rightarrow> string \<Rightarrow> pydict \<Rightarrow> string \<Rightarrow> int \<Rightarrow> world \<Rightarrow> py_error option \<times> world" where
  "error plat self message kwargs = log plat self ''error'' message kwargs"

section \<open>Error serialisation\<close>

text \<open>
  What \<^verbatim>\<open>serialize_error\<close> reads of an exception object: its truth value, the name of its
  class, \<^verbatim>\<open>str(error)\<close>, its \<^verbatim>\<open>__dict__\<close> when it has one, and the text that
  \<^verbatim>\<open>traceback.format_exception\<close> gives, joined.
\<close>

record py_exception =
  exc_truthy :: bool
  exc_type_name :: string
  exc_str :: string
  exc_dict :: "pydict option"
  exc_traceback :: string

definition SAFE_ATTRIBUTES :: "string list" where
  "SAFE_ATTRIBUTES = [''args'', ''code'', ''errno'', ''message'', ''filename'', ''lineno'']"

definition SENSITIVE_PATTERNS :: "string list" where
  "SENSITIVE_PATTERNS =
     [''password'', ''passwd'', ''pwd'', ''token'', ''key'', ''secret'', ''credential'', ''auth'',
      ''ssn'', ''social_security'', ''credit_card'', ''cc_number'', ''account_number'',
      ''account_num'']"

text \<open>
  How \<^verbatim>\<open>re.IGNORECASE\<close> reads a character of the text: through its simple lower case, and
  through the extra case forms of \<^verbatim>\<open>i\<close> and \<^verbatim>\<open>s\<close>. For the ASCII letters of a pattern
  this lets \<^verbatim>\<open>k\<close> match U+212A (the Kelvin sign, bytes E2 84 AA), \<^verbatim>\<open>i\<close> match U+0130 and
  U+0131 (C4 B0 and C4 B1), and \<^verbatim>\<open>s\<close> match U+017F (C5 BF), beside the two ASCII cases of
  each letter. \<^const>\<open>None\<close> is for a text that does not begin with one of these four.
\<close>

definition fold_prefix :: "string \<Rightarrow> (char \<times> nat) option" where
  "fold_prefix s =
     (if startswith s [CHR 0xE2, CHR 0x84, CHR 0xAA] then Some (CHR ''k'', 3)
      else if startswith s [CHR 0xC4, CHR 0xB0] then Some (CHR ''i'', 2)
      else if startswith s [CHR 0xC4, CHR 0xB1] then Some (CHR ''i'', 2)
      else if startswith s [CHR 0xC5, CHR 0xBF] then Some (CHR ''s'', 2)
      else None)"

fun sre_fold :: "string \<Rightarrow> string" where
  "sre_fold [] = []"
| "sre_fold (c # cs) =
     (case fold_prefix (c # cs) of
        Some (x, n) \<Rightarrow> x # sre_fold (drop (n - 1) cs)
      | None \<Rightarrow> char_lower c # sre_fold cs)"

text \<open>
  \<^verbatim>\<open>re.search(pattern, value, re.IGNORECASE)\<close> for a pattern made of ASCII letters and
  underscores only, as all of \<^const>\<open>SENSITIVE_PATTERNS\<close> are: a substring search in the
  text read as above.
\<close>

definition re_search_ignorecase :: "string \<Rightarrow> string \<Rightarrow> bool" where
  "re_search_ignorecase pattern val = contains (sre_fold val) (lower pattern)"

definition matches_sensitive :: "string \<Rightarrow> bool" where
  "matches_sensitive val = list_ex (\<lambda>pattern. re_search_ignorecase pattern val) SENSITIVE_PATTERNS"

definition redact_sensitive_data :: "pyval \<Rightarrow> pyval" where
  "redact_sensitive_data val =
     (case val of
        PStr s \<Rightarrow> if matches_sensitive s then PStr ''[REDACTED]'' else val
      | _ \<Rightarrow> val)"

text \<open>The loop of \<^verbatim>\<open>serialize_error\<close> over the items of \<^verbatim>\<open>error.__dict__\<close>.\<close>

definition copy_attribute :: "string \<times> pyval \<Rightarrow> pydict \<Rightarrow> pydict" where
  "copy_attribute item serialized =
     (case item of (key, val) \<Rightarrow>
        if startswith key ''_'' then serialized
        else if key \<in> set SAFE_ATTRIBUTES
             then AList.update key (redact_sensitive_data val) serialized
             else serialized)"

definition serialize_error :: "py_exception option \<Rightarrow> pydict option" where
  "serialize_error error_arg =
     (case error_arg of
        None \<Rightarrow> None
      | Some exc \<Rightarrow>
          if \<not> exc_truthy exc then None
          else
            (let serialized0 =
                   [(''name'', PStr (exc_type_name exc)),
                    (''message'', PStr (if exc_str exc = [] then ''Error'' else exc_str exc))];
                 serialized1 =
                   (case exc_dict exc of
                      None \<Rightarrow> serialized0
                    | Some attrs \<Rightarrow> fold copy_attribute attrs serialized0);
                 stack = exc_traceback exc
             in Some (if stack \<noteq> [] then AList.update ''stack'' (PStr stack) serialized1
                      else serialized1)))"

subsection \<open>\<^verbatim>\<open>log_error\<close>\<close>

text \<open>
  \<^verbatim>\<open>dict(x)\<close>. A dictionary is copied; a sequence must consist of pairs. Keys are strings
  in this universe, so a pair whose key is not a string is reported as \<^verbatim>\<open>TypeError\<close>,
  which Python raises for the unhashable keys only.
\<close>

fun pair_of :: "pyval \<Rightarrow> py_error + (string \<times> pyval)" where
  "pair_of (PList [PStr k, v]) = Inr (k, v)"
| "pair_of (PList [k, v]) = Inl TypeError"
| "pair_of (PList xs) = Inl ValueError"
| "pair_of (PStr [a, b]) = Inr ([a], PStr [b])"
| "pair_of (PStr s) = Inl ValueError"
| "pair_of (PDict [(k1, v1), (k2, v2)]) = Inr (k1, PStr k2)"
| "pair_of (PDict d) = Inl ValueError"
| "pair_of v = Inl TypeError"

fun dict_of_pairs :: "pyval list \<Rightarrow> pydict \<Rightarrow> py_error + pydict" where
  "dict_of_pairs [] acc = Inr acc"
| "dict_of_pairs (x # xs) acc =
     (case pair_of x of
        Inl e \<Rightarrow> Inl e
      | Inr (k, v) \<Rightarrow> dict_of_pairs xs (AList.update k v acc))"

fun py_dict :: "pyval \<Rightarrow> py_error + pydict" where
  "py_dict (PDict d) = Inr d"
| "py_dict (PList xs) = dict_of_pairs xs []"
| "py_dict (PStr s) = dict_of_pairs (map (\<lambda>c. PStr [c]) s) []"
| "py_dict v = Inl TypeError"

definition setdefault :: "string \<Rightarrow> pyval \<Rightarrow> pydict \<Rightarrow> pydict" where
  "setdefault k v d = (if dict_has d k then d else AList.update k v d)"

text \<open>The context that \<^verbatim>\<open>log_error\<close> builds before it calls \<^verbatim>\<open>self.error\<close>.\<close>

definition log_error_context :: "py_exception \<Rightarrow> pydict \<Rightarrow> py_error + pydict" where
  "log_error_context exc kwargs0 =
     (let context_arg = py_or (dict_get kwargs0 ''context'' (PDict [])) (PDict []);
          kwargs = AList.delete ''context'' kwargs0
      in case py_dict context_arg of
           Inl e \<Rightarrow> Inl e
         | Inr context0 \<Rightarrow>
             (let context1 = dict_update context0 kwargs;
                  context2 =
                    (case serialize_error (Some exc) of
                       None \<Rightarrow> context1
                     | Some error_payload \<Rightarrow>
                         if error_payload \<noteq> []
                         then AList.update ''err'' (PDict error_payload) context1
                         else context1);
                  context3 = setdefault ''error_type'' (PStr (exc_type_name exc)) context2
              in Inr (setdefault ''error_message''
                        (PStr (if exc_str exc = [] then ''Error occurred'' else exc_str exc))
                        context3)))"

definition log_error ::
  "platform \<Rightarrow> logger \<Rightarrow> py_exception \<Rightarrow> pydict \<Rightarrow> string \<Rightarrow> int \<Rightarrow> world
     \<Rightarrow> py_error option \<times> world" where
  "log_error plat self exc kwargs now_iso now_ms w =
     (case log_error_context exc kwargs of
        Inl e \<Rightarrow> (Some e, w)
      | Inr context \<Rightarrow>
          error plat self (if exc_str exc = [] then ''Error occurred'' else exc_str exc)
            [(''context'', PDict context)] now_iso now_ms w)"

section \<open>Loggers as objects\<close>

text \<open>
  Python loggers are objects that refer to their \<^verbatim>\<open>config\<close> and \<^verbatim>\<open>bindings\<close>
  dictionaries; a child shares the \<^verbatim>\<open>config\<close> object of its parent. The store below
  holds the objects, an address being an index; allocation appends.
\<close>

record logger_obj =
  config_ref :: nat
  bindings_ref :: nat
  obj_pretty :: bool
  obj_colorize :: bool
  obj_stream :: "nat option"
  obj_level_threshold :: int

datatype obj = DictObj pydict | ConfigObj config | LoggerObj logger_obj

type_synonym heap = "obj list"

definition alloc :: "heap \<Rightarrow> obj \<Rightarrow> heap \<times> nat" where
  "alloc h x = (h @ [x], length h)"

definition heap_dict :: "heap \<Rightarrow> nat \<Rightarrow> pydict option" where
  "heap_dict h a = (if a < length h then (case h ! a of DictObj d \<Rightarrow> Some d | _ \<Rightarrow> None) else None)"

definition heap_config :: "heap \<Rightarrow> nat \<Rightarrow> config option" where
  "heap_config h a = (if a < length h then (case h ! a of ConfigObj c \<Rightarrow> Some c | _ \<Rightarrow> None) else None)"

definition heap_logger :: "heap \<Rightarrow> nat \<Rightarrow> logger_obj option" where
  "heap_logger h a = (if a < length h then (case h ! a of LoggerObj l \<Rightarrow> Some l | _ \<Rightarrow> None) else None)"

text \<open>\<^verbatim>\<open>d[key] = val\<close> on the dictionary object at address \<open>a\<close>.\<close>

definition store_item :: "heap \<Rightarrow> nat \<Rightarrow> string \<Rightarrow> pyval \<Rightarrow> heap" where
  "store_item h a key val =
     (case heap_dict h a of Some d \<Rightarrow> h[a := DictObj (AList.update key val d)] | None \<Rightarrow> h)"

text \<open>
  Creating a \<^verbatim>\<open>StructuredLogger\<close>: \<^verbatim>\<open>bindings or {}\<close> keeps the dictionary it is
  given unless that is empty, in which case a new empty dictionary is made. The result is
  \<open>None\<close> where an address does not hold an object of the expected kind.
\<close>

definition new_logger ::
  "heap \<Rightarrow> nat \<Rightarrow> nat \<Rightarrow> bool \<Rightarrow> bool \<Rightarrow> nat option \<Rightarrow> (heap \<times> nat) option" where
  "new_logger h cref bref p c s =
     (case (heap_config h cref, heap_dict h bref) of
        (Some cfg, Some b) \<Rightarrow>
          (let (h1, bref') = (if b = [] then alloc h (DictObj []) else (h, bref))
           in Some (alloc h1
                (LoggerObj \<lparr>config_ref = cref, bindings_ref = bref', obj_pretty = p,
                            obj_colorize = c, obj_stream = s,
                            obj_level_threshold = level_weight (log_level cfg) 20\<rparr>)))
      | _ \<Rightarrow> None)"

text \<open>
  \<^verbatim>\<open>child\<close> on objects: \<^verbatim>\<open>merged = {**self.bindings}\<close> allocates the copy, and the loop
  writes into the copy.
\<close>

definition child_obj :: "heap \<Rightarrow> nat \<Rightarrow> pydict \<Rightarrow> (heap \<times> nat) option" where
  "child_obj h self kw =
     (case heap_logger h self of
        None \<Rightarrow> None
      | Some l \<Rightarrow>
          (case heap_dict h (bindings_ref l) of
             None \<Rightarrow> None
           | Some b \<Rightarrow>
               (let (h1, merged) = alloc h (DictObj b);
                    h2 = fold (\<lambda>(key, val) hh. if val \<noteq> PNone then store_item hh merged key val else hh)
                           kw h1
                in new_logger h2 (config_ref l) merged (obj_pretty l) (obj_colorize l) (obj_stream l))))"

definition create_logger_obj ::
  "heap \<Rightarrow> nat \<Rightarrow> pyval \<Rightarrow> pyval \<Rightarrow> pyval \<Rightarrow> pyval \<Rightarrow> (heap \<times> nat) option" where
  "create_logger_obj h self svc env ver cat =
     (case heap_logger h self of
        None \<Rightarrow> None
      | Some l \<Rightarrow>
          (case heap_config h (config_ref l) of
             None \<Rightarrow> None
           | Some cfg \<Rightarrow>
               child_obj h self
                 [(''service'', py_or svc (PStr (service cfg))),
                  (''environment'', py_or env (PStr (environment cfg))),
                  (''version'', py_or ver (PStr (version cfg))),
                  (''category'', py_or cat (PStr ''app''))]))"

definition bind_obj :: "heap \<Rightarrow> nat \<Rightarrow> pydict \<Rightarrow> (heap \<times> nat) option" where
  "bind_obj h self kw = child_obj h self kw"

definition with_category_obj :: "heap \<Rightarrow> nat \<Rightarrow> pyval \<Rightarrow> (heap \<times> nat) option" where
  "with_category_obj h self category = child_obj h self [(''category'', category)]"

definition bind_trace_obj :: "heap \<Rightarrow> nat \<Rightarrow> pyval \<Rightarrow> pyval \<Rightarrow> (heap \<times> nat) option" where
  "bind_trace_obj h self trace_id span_id =
     child_obj h self [(''trace_id'', trace_id), (''span_id'', span_id)]"

definition with_request_obj :: "heap \<Rightarrow> nat \<Rightarrow> pyval \<Rightarrow> pyval \<Rightarrow> (heap \<times> nat) option" where
  "with_request_obj h self request_id user_hash =
     child_obj h self [(''request_id'', request_id), (''user_hash'', user_hash)]"

text \<open>The logger value that an address stands for.\<close>

definition logger_at :: "heap \<Rightarrow> nat \<Rightarrow> logger option" where
  "logger_at h a =
     (case heap_logger h a of
        None \<Rightarrow> None
      | Some l \<Rightarrow>
          (case (heap_config h (config_ref l), heap_dict h (bindings_ref l)) of
             (Some cfg, Some b) \<Rightarrow>
               Some \<lparr>config = cfg, bindings = b, pretty = obj_pretty l, colorize = obj_colorize l,
                     stream = obj_stream l, level_threshold = obj_level_threshold l\<rparr>
           | _ \<Rightarrow> None))"

text \<open>The six derivations, to speak of them together.\<close>

datatype derivation =
    Child pydict
  | Bind pydict
  | WithCategory pyval
  | BindTrace pyval pyval
  | WithRequest pyval pyval
  | CreateLogger pyval pyval pyval pyval

fun derive :: "logger \<Rightarrow> derivation \<Rightarrow> logger" where
  "derive self (Child kw) = child self kw"
| "derive self (Bind kw) = bind self kw"
| "derive self (WithCategory c) = with_category self c"
| "derive self (BindTrace t s) = bind_trace self t s"
| "derive self (WithRequest r u) = with_request self r u"
| "derive self (CreateLogger sv en ve ca) = create_logger self sv en ve ca"

fun derive_obj :: "heap \<Rightarrow> nat \<Rightarrow> derivation \<Rightarrow> (heap \<times> nat) option" where
  "derive_obj h self (Child kw) = child_obj h self kw"
| "derive_obj h self (Bind kw) = bind_obj h self kw"
| "derive_obj h self (WithCategory c) = with_category_obj h self c"
| "derive_obj h self (BindTrace t s) = bind_trace_obj h self t s"
| "derive_obj h self (WithRequest r u) = with_request_obj h self r u"
| "derive_obj h self (CreateLogger sv en ve ca) = create_logger_obj h self sv en ve ca"

section \<open>Reading an event id\<close>

text \<open>
  An event id is \<^verbatim>\<open>evt_<epoch_ms>_<counter>\<close>; its counter component is the decimal
  number after the last underscore.
\<close>

definition digit_val :: "char \<Rightarrow> nat option" where
  "digit_val c = (let n = (of_char c :: nat) in if 48 \<le> n \<and> n \<le> 57 then Some (n - 48) else None)"

fun parse_digits :: "string \<Rightarrow> nat \<Rightarrow> nat option" where
  "parse_digits [] acc = Some acc"
| "parse_digits (c # cs) acc =
     (case digit_val c of None \<Rightarrow> None | Some d \<Rightarrow> parse_digits cs (10 * acc + d))"

definition parse_int :: "string \<Rightarrow> int option" where
  "parse_int s =
     (case s of
        [] \<Rightarrow> None
      | c # cs \<Rightarrow>
          if c = CHR ''-'' then (if cs = [] then None else map_option (\<lambda>n. - int n) (parse_digits cs 0))
          else map_option int (parse_digits s 0))"

definition counter_component :: "string \<Rightarrow> int option" where
  "counter_component event_id = parse_int (rev (takeWhile (\<lambda>c. c \<noteq> CHR ''_'') (rev event_id)))"

text \<open>Calls of \<^const>\<open>generate_event_id\<close> one after the other, one clock reading each.\<close>

fun generate_event_ids :: "int list \<Rightarrow> world \<Rightarrow> string list \<times> world" where
  "generate_event_ids [] w = ([], w)"
| "generate_event_ids (t # ts) w =
     (case generate_event_id t w of
        (i, w1) \<Rightarrow> (case generate_event_ids ts w1 of (ids, w2) \<Rightarrow> (i # ids, w2)))"

section \<open>Sample inputs\<close>

definition sample_config :: config where
  "sample_config =
     \<lparr>service = ''test-service'', environment = ''test'', log_target = ''stdout'',
      log_level = ''info'', force_pretty = True, version = ''0.0.0''\<rparr>"

definition sample_platform :: platform where
  "sample_platform = \<lparr>linesep = [CHR 0x0A], iso_hms = (\<lambda>s. Some (take 8 (drop 11 s)))\<rparr>"

definition sample_world :: world where
  "sample_world = \<lparr>event_id_counter = 0, written = []\<rparr>"

text \<open>The module's root logger for \<^const>\<open>sample_config\<close>, in machine mode and in pretty mode.\<close>

definition sample_logger :: logger where
  "sample_logger =
     StructuredLogger sample_config
       (Some [(''service'', PStr ''test-service''), (''environment'', PStr ''test''),
              (''version'', PStr ''0.0.0''), (''category'', PStr ''app'')])
       False False None"

definition sample_pretty_logger :: logger where
  "sample_pretty_logger = sample_logger\<lparr>pretty := True\<rparr>"

definition sample_exception :: py_exception where
  "sample_exception =
     \<lparr>exc_truthy = True, exc_type_name = ''ValueError'', exc_str = ''boom'',
      exc_dict = Some [(''password'', PStr ''hunter2''), (''code'', PStr ''my token''),
                       (''errno'', PInt 5)],
      exc_traceback = ''ValueError: boom''\<rparr>"

text \<open>A store with the configuration, the bindings and the logger object of \<^const>\<open>sample_logger\<close>.\<close>

definition sample_heap :: heap where
  "sample_heap =
     [ConfigObj sample_config,
      DictObj [(''service'', PStr ''test-service''), (''environment'', PStr ''test''),
               (''version'', PStr ''0.0.0''), (''category'', PStr ''app'')],
      LoggerObj \<lparr>config_ref = 0, bindings_ref = 1, obj_pretty = False, obj_colorize = False,
                 obj_stream = None, obj_level_threshold = 20\<rparr>]"

section \<open>Facts about the dictionary loops\<close>

lemma dict_has_dom: "dict_has d k \<longleftrightarrow> k \<in> fst ` set d"
  by (simp add: dict_has_def map_of_eq_None_iff)

lemma merge_bindings_Nil: "merge_bindings m [] = m"
  by (simp add: merge_bindings_def)

lemma merge_bindings_Cons:
  "merge_bindings m ((k, v) # kw) = merge_bindings (if v \<noteq> PNone then AList.update k v m else m) kw"
  by (simp add: merge_bindings_def)

lemma map_of_merge_bindings:
  "distinct (map fst kw) \<Longrightarrow>
   map_of (merge_bindings m kw) k =
     (case map_of kw k of Some v \<Rightarrow> if v \<noteq> PNone then Some v else map_of m k | None \<Rightarrow> map_of m k)"
proof (induction kw arbitrary: m)
  case Nil
  then show ?case by (simp add: merge_bindings_Nil)
next
  case (Cons p kw)
  obtain k' v' where p: "p = (k', v')" by (cases p)
  from Cons.prems p have d: "distinct (map fst kw)" and nin: "k' \<notin> fst ` set kw" by auto
  from nin have none: "map_of kw k' = None" by (simp add: map_of_eq_None_iff)
  show ?case
    using Cons.IH [OF d] none
    by (auto simp: p merge_bindings_Cons update_conv' split: option.splits)
qed

lemma merge_bindings_no_None:
  "map_of m k \<noteq> Some PNone \<Longrightarrow> map_of (merge_bindings m kw) k \<noteq> Some PNone"
proof (induction kw arbitrary: m)
  case Nil
  then show ?case by (simp add: merge_bindings_Nil)
next
  case (Cons p kw)
  obtain k' v' where p: "p = (k', v')" by (cases p)
  show ?case
    unfolding p merge_bindings_Cons
    by (rule Cons.IH) (use Cons.prems in \<open>auto simp: update_conv'\<close>)
qed

lemma extra_into_context_eq: "extra_into_context extra c = merge_bindings c extra"
  by (simp add: extra_into_context_def merge_bindings_def)

lemma map_of_drop_none_aux:
  "map_of (fold (\<lambda>key e. if map_of e key = Some PNone then AList.delete key e else e) ks e) k =
     (if k \<in> set ks \<and> map_of e k = Some PNone then None else map_of e k)"
proof (induction ks arbitrary: e)
  case Nil
  then show ?case by simp
next
  case (Cons a ks)
  show ?case
    by (simp add: Cons.IH delete_conv')
qed

lemma map_of_drop_none:
  "map_of (drop_none e) k = (if map_of e k = Some PNone then None else map_of e k)"
  by (auto simp: drop_none_def dict_keys_def map_of_drop_none_aux dest: map_of_SomeD intro: rev_image_eqI)


lemma map_of_bound_root_fields_aux:
  "map_of (fold (\<lambda>field e. if dict_get bnd field PNone \<noteq> PNone
                            then AList.update field (dict_get bnd field PNone) e else e) fs e) k =
     (if k \<in> set fs \<and> dict_get bnd k PNone \<noteq> PNone then Some (dict_get bnd k PNone) else map_of e k)"
proof (induction fs arbitrary: e)
  case Nil
  then show ?case by simp
next
  case (Cons a fs)
  show ?case
    by (simp add: Cons.IH update_conv')
qed

lemma map_of_bound_root_fields:
  "map_of (bound_root_fields bnd e) k =
     (if k \<in> set OPTIONAL_ROOT_FIELDS \<and> dict_get bnd k PNone \<noteq> PNone
      then Some (dict_get bnd k PNone) else map_of e k)"
  unfolding bound_root_fields_def Let_def by (rule map_of_bound_root_fields_aux)

lemma fst_call_root_field: "fst (call_root_field f (extra, entry)) = AList.delete f extra"
  by (simp add: call_root_field_def Let_def dict_has_dom)

lemma map_of_snd_call_root_field:
  "map_of (snd (call_root_field f (extra, entry))) k =
     (if k = f then (case map_of extra f of Some v \<Rightarrow> if v \<noteq> PNone then Some v else None
                     | None \<Rightarrow> map_of entry k)
      else map_of entry k)"
  by (auto simp: call_root_field_def Let_def dict_has_def dict_get_def update_conv' delete_conv'
           split: option.splits)

lemma fold_call_root_field_fst:
  "fst (fold call_root_field fs (extra, entry)) = filter (\<lambda>p. fst p \<notin> set fs) extra"
proof (induction fs arbitrary: extra entry)
  case Nil
  then show ?case by simp
next
  case (Cons f fs)
  obtain x e where st: "call_root_field f (extra, entry) = (x, e)" by (cases "call_root_field f (extra, entry)")
  from fst_call_root_field [of f extra entry] st have x: "x = AList.delete f extra" by simp
  show ?case
    by (auto simp: st Cons.IH x AList.delete_eq case_prod_beta intro!: filter_cong)
qed

lemma fold_call_root_field_snd:
  "map_of (snd (fold call_root_field fs (extra, entry))) k =
     (case (if k \<in> set fs then map_of extra k else None) of
        Some v \<Rightarrow> if v \<noteq> PNone then Some v else None
      | None \<Rightarrow> map_of entry k)"
proof (induction fs arbitrary: extra entry)
  case Nil
  then show ?case by simp
next
  case (Cons f fs)
  obtain x e where st: "call_root_field f (extra, entry) = (x, e)" by (cases "call_root_field f (extra, entry)")
  from fst_call_root_field [of f extra entry] st have x: "x = AList.delete f extra" by simp
  from map_of_snd_call_root_field [of f extra entry] st
  have e: "\<And>k. map_of e k =
     (if k = f then (case map_of extra f of Some v \<Rightarrow> if v \<noteq> PNone then Some v else None
                     | None \<Rightarrow> map_of entry k)
      else map_of entry k)" by simp
  show ?case
    by (simp add: st Cons.IH x e delete_conv' split: option.splits)
qed


lemma context_not_optional: "''context'' \<notin> set OPTIONAL_ROOT_FIELDS"
  by (simp add: OPTIONAL_ROOT_FIELDS_def)

lemma event_id_not_optional: "''event_id'' \<notin> set OPTIONAL_ROOT_FIELDS"
  by (simp add: OPTIONAL_ROOT_FIELDS_def)

lemma prepare_entry_snd:
  "snd (prepare_entry self level message kwargs now_iso now_ms w) =
     w\<lparr>event_id_counter := event_id_counter w + 1\<rparr>"
  by (simp add: prepare_entry_def generate_event_id_def Let_def case_prod_beta)

lemma prepare_entry_context:
  "map_of (fst (prepare_entry self level message kwargs now_iso now_ms w)) ''context'' =
     Some (PDict (merge_bindings
                    (case dict_get kwargs ''context'' PNone of PDict d \<Rightarrow> dict_update [] d | _ \<Rightarrow> [])
                    (filter (\<lambda>p. fst p \<notin> set OPTIONAL_ROOT_FIELDS)
                       (AList.delete ''event_id'' (AList.delete ''context'' kwargs)))))"
  by (simp add: prepare_entry_def Let_def case_prod_beta map_of_drop_none update_conv'
        call_root_fields_def fold_call_root_field_fst extra_into_context_eq)

lemma prepare_entry_root:
  assumes "k \<noteq> ''context''"
  shows "map_of (fst (prepare_entry self level message kwargs now_iso now_ms w)) k =
     (let r = (case (if k \<in> set OPTIONAL_ROOT_FIELDS then map_of kwargs k else None) of
                 Some v \<Rightarrow> if v \<noteq> PNone then Some v else None
               | None \<Rightarrow>
                   if k \<in> set OPTIONAL_ROOT_FIELDS \<and> dict_get (bindings self) k PNone \<noteq> PNone
                   then Some (dict_get (bindings self) k PNone)
                   else map_of
            [(''timestamp'', PStr now_iso),
             (''level'', PStr level),
             (''message'', PStr message),
             (''service'', dict_get (bindings self) ''service'' (PStr (service (config self)))),
             (''environment'',
                dict_get (bindings self) ''environment'' (PStr (environment (config self)))),
             (''version'', dict_get (bindings self) ''version'' (PStr (version (config self)))),
             (''category'', dict_get (bindings self) ''category'' (PStr ''app'')),
             (''event_id'', dict_get (AList.delete ''context'' kwargs) ''event_id''
                  (PStr (fst (generate_event_id now_ms w))))] k)
      in if r = Some PNone then None else r)"
proof -
  have opt: "k \<in> set OPTIONAL_ROOT_FIELDS \<Longrightarrow>
      map_of (AList.delete ''event_id'' (AList.delete ''context'' kwargs)) k = map_of kwargs k"
    using context_not_optional event_id_not_optional by (auto simp: delete_conv')
  show ?thesis
    using assms opt
    by (simp add: prepare_entry_def Let_def case_prod_beta map_of_drop_none update_conv'
        call_root_fields_def fold_call_root_field_snd map_of_bound_root_fields
        del: map_of.simps cong: option.case_cong)
qed

lemma lower_simps: "lower [] = []" "lower (c # cs) = char_lower c # lower cs"
  by (simp_all add: lower_def)

section \<open>Level filtering\<close>

text \<open>
  Claim C1. A log call whose level weighs less than the threshold of the logger is a no-op:
  it returns without an exception and leaves the process state as it was, so nothing is
  written and the event id counter is not advanced.
\<close>

theorem log_below_threshold_noop:
  assumes "level_weight (lower level) 0 < level_threshold self"
  shows "log plat self level message kwargs now_iso now_ms w = (None, w)
         \<and> written (snd (log plat self level message kwargs now_iso now_ms w)) = written w
         \<and> event_id_counter (snd (log plat self level message kwargs now_iso now_ms w))
             = event_id_counter w"
  using assms by (simp add: log_def)

theorem log_below_threshold_noop_witness:
  "level_weight (lower ''DEBUG'') 0 < level_threshold sample_logger
   \<and> log sample_platform sample_logger ''DEBUG'' ''m'' [(''a'', PInt 1)] ''t'' 5 sample_world
       = (None, sample_world)"
proof -
  have h: "level_weight (lower ''DEBUG'') 0 < level_threshold sample_logger"
    by code_simp
  from log_below_threshold_noop [OF h] h show ?thesis by simp
qed

section \<open>Bindings of a child logger\<close>

text \<open>
  Claim C2 says that a key passed to \<^verbatim>\<open>child\<close> with the value \<open>None\<close> is removed from
  the bindings of the child. The loop of \<^verbatim>\<open>child\<close> skips such a key, so the binding of
  the parent stays: a parent bound to a trace id, asked for a child with
  \<^verbatim>\<open>trace_id=None\<close>, gives a child that still has the trace id.
\<close>

theorem child_none_keeps_parent_binding_counterexample:
  "map_of (bindings (child (StructuredLogger sample_config (Some [(''trace_id'', PStr ''t-1'')])
                              False False None)
                       [(''trace_id'', PNone)])) ''trace_id'' = Some (PStr ''t-1'')"
  by (simp add: child_def StructuredLogger_def merge_bindings_def)

text \<open>
  Claim C2, amended. For a key that the keyword arguments map to \<open>None\<close>, the child has
  exactly the binding of its parent: the parent's value where there is one, none otherwise.
\<close>

theorem child_none_leaves_binding:
  assumes "distinct (map fst kw)" and "map_of kw K = Some PNone"
  shows "map_of (bindings (child self kw)) K = map_of (bindings self) K"
  using assms by (simp add: child_def StructuredLogger_def map_of_merge_bindings)

theorem child_none_leaves_binding_witness:
  "distinct (map fst [(''span_id'', PNone), (''trace_id'', PStr ''t'')])
   \<and> map_of [(''span_id'', PNone), (''trace_id'', PStr ''t'')] ''span_id'' = Some PNone
   \<and> map_of (bindings (child (sample_logger\<lparr>bindings := [(''span_id'', PStr ''s'')]\<rparr>)
                         [(''span_id'', PNone), (''trace_id'', PStr ''t'')])) ''span_id''
       = Some (PStr ''s'')"
proof -
  have d: "distinct (map fst [(''span_id'', PNone), (''trace_id'', PStr ''t'')])" by simp
  have m: "map_of [(''span_id'', PNone), (''trace_id'', PStr ''t'')] ''span_id'' = Some PNone"
    by simp
  from child_none_leaves_binding
         [OF d m, of "sample_logger\<lparr>bindings := [(''span_id'', PStr ''s'')]\<rparr>"] d m
  show ?thesis by simp
qed

section \<open>Facts about assembled entries\<close>

lemma keys_merge_bindings:
  "fst ` set (merge_bindings m kw) \<subseteq> fst ` set m \<union> {k. \<exists>v. (k, v) \<in> set kw \<and> v \<noteq> PNone}"
proof (induction kw arbitrary: m)
  case Nil
  then show ?case by (simp add: merge_bindings_Nil)
next
  case (Cons p kw)
  obtain k' v' where p: "p = (k', v')" by (cases p)
  show ?case
    using Cons.IH [of "if v' \<noteq> PNone then AList.update k' v' m else m"]
    by (auto simp: p merge_bindings_Cons dom_update split: if_splits)
qed

lemma keys_dict_update: "fst ` set (dict_update m d) = fst ` set m \<union> fst ` set d"
proof (induction d arbitrary: m)
  case Nil
  then show ?case by (simp add: dict_update_def)
next
  case (Cons p d)
  obtain k' v' where p: "p = (k', v')" by (cases p)
  have step: "dict_update m (p # d) = dict_update (AList.update k' v' m) d"
    by (simp add: dict_update_def p)
  show ?case unfolding step Cons.IH by (auto simp: p dom_update)
qed

lemma event_id_counter_emit: "event_id_counter (snd (emit plat self entry w)) = event_id_counter w"
  by (simp add: emit_def split: sum.splits)

lemma log_passes:
  "\<not> level_weight (lower level) 0 < level_threshold self \<Longrightarrow>
   log plat self level message kwargs now_iso now_ms w =
     emit plat self (fst (prepare_entry self (lower level) message kwargs now_iso now_ms w))
       (snd (prepare_entry self (lower level) message kwargs now_iso now_ms w))"
  by (simp add: log_def case_prod_beta Let_def)

lemma prepare_entry_context_keys:
  assumes "map_of (fst (prepare_entry self level message kwargs now_iso now_ms w)) ''context''
             = Some (PDict c)"
    and "k \<in> fst ` set c"
  shows "(\<exists>d. dict_get kwargs ''context'' PNone = PDict d \<and> k \<in> fst ` set d)
         \<or> (\<exists>v. (k, v) \<in> set kwargs \<and> v \<noteq> PNone \<and> k \<notin> set OPTIONAL_ROOT_FIELDS
                 \<and> k \<noteq> ''context'' \<and> k \<noteq> ''event_id'')"
proof -
  let ?c0 = "case dict_get kwargs ''context'' PNone of PDict d \<Rightarrow> dict_update [] d | _ \<Rightarrow> []"
  let ?ex = "filter (\<lambda>p. fst p \<notin> set OPTIONAL_ROOT_FIELDS)
               (AList.delete ''event_id'' (AList.delete ''context'' kwargs))"
  from assms(1) have c: "c = merge_bindings ?c0 ?ex" by (simp add: prepare_entry_context)
  from assms(2) c keys_merge_bindings [of ?c0 ?ex]
  consider "k \<in> fst ` set ?c0" | "\<exists>v. (k, v) \<in> set ?ex \<and> v \<noteq> PNone" by blast
  then show ?thesis
  proof cases
    case 1
    then show ?thesis
      by (cases "dict_get kwargs ''context'' PNone") (auto simp: keys_dict_update)
  next
    case 2
    then show ?thesis by (auto simp: AList.delete_eq)
  qed
qed

lemma prepare_entry_entry_context:
  "entry_context (fst (prepare_entry self level message kwargs now_iso now_ms w)) =
     merge_bindings
       (case dict_get kwargs ''context'' PNone of PDict d \<Rightarrow> dict_update [] d | _ \<Rightarrow> [])
       (filter (\<lambda>p. fst p \<notin> set OPTIONAL_ROOT_FIELDS)
          (AList.delete ''event_id'' (AList.delete ''context'' kwargs)))"
  by (simp add: entry_context_def prepare_entry_context)

lemma prepare_entry_event_id:
  assumes "map_of kwargs ''event_id'' = Some v" and "v \<noteq> PNone"
  shows "map_of (fst (prepare_entry self level message kwargs now_iso now_ms w)) ''event_id'' = Some v"
  using assms event_id_not_optional
  by (simp add: prepare_entry_root dict_get_def delete_conv')

lemma prepare_entry_root_keys:
  assumes "k \<in> fst ` set (fst (prepare_entry self level message kwargs now_iso now_ms w))"
  shows "k \<in> {''timestamp'', ''level'', ''message'', ''service'', ''environment'', ''version'',
              ''category'', ''event_id'', ''context''} \<union> set OPTIONAL_ROOT_FIELDS"
proof (cases "k = ''context''")
  case True
  then show ?thesis by simp
next
  case False
  from assms have "map_of (fst (prepare_entry self level message kwargs now_iso now_ms w)) k \<noteq> None"
    by (simp add: map_of_eq_None_iff)
  then show ?thesis
    unfolding prepare_entry_root [OF False]
    by (auto simp: Let_def split: option.splits if_splits)
qed

section \<open>Root fields and context\<close>

text \<open>
  Claim C3 says that no key is both at the root of an entry and inside its context. A
  keyword argument named like a required field is not an optional root field, so it goes
  into the context, while the root has the field as well.
\<close>

theorem root_key_inside_context_counterexample:
  "map_of (fst (prepare_entry sample_logger ''info'' ''m'' [(''service'', PStr ''x'')] ''t'' 5
                  sample_world)) ''service'' = Some (PStr ''test-service'')
   \<and> map_of (fst (prepare_entry sample_logger ''info'' ''m'' [(''service'', PStr ''x'')] ''t'' 5
                  sample_world)) ''context'' = Some (PDict [(''service'', PStr ''x'')])"
  by code_simp

text \<open>
  Claim C3, amended. The root keys of an entry are among the eight required fields,
  \<^verbatim>\<open>context\<close> and the eight optional root fields. Every other keyword argument
  (not \<^verbatim>\<open>context\<close>, not \<^verbatim>\<open>event_id\<close>) whose value is not \<open>None\<close> lands in the
  context with its value. A key is at the root and in the context only when the nested
  context object passed by the caller has it, or when it is one of the seven required names
  \<^verbatim>\<open>timestamp\<close> to \<^verbatim>\<open>category\<close> given as a keyword argument.
\<close>

theorem entry_root_and_context_keys:
  assumes "prepare_entry self level message kwargs now_iso now_ms w = (entry, w')"
  shows "fst ` set entry \<subseteq>
           {''timestamp'', ''level'', ''message'', ''service'', ''environment'', ''version'',
            ''category'', ''event_id'', ''context''} \<union> set OPTIONAL_ROOT_FIELDS
     \<and> (distinct (map fst kwargs) \<and> map_of kwargs k = Some v \<and> v \<noteq> PNone
          \<and> k \<notin> set OPTIONAL_ROOT_FIELDS \<and> k \<noteq> ''context'' \<and> k \<noteq> ''event_id''
        \<longrightarrow> map_of (entry_context entry) k = Some v)
     \<and> (k' \<in> fst ` set entry \<and> k' \<in> fst ` set (entry_context entry)
        \<longrightarrow> (\<exists>d. dict_get kwargs ''context'' PNone = PDict d \<and> k' \<in> fst ` set d)
            \<or> (k' \<in> {''timestamp'', ''level'', ''message'', ''service'', ''environment'',
                      ''version'', ''category''}
                \<and> (\<exists>v'. (k', v') \<in> set kwargs \<and> v' \<noteq> PNone)))"
proof -
  from assms have e: "entry = fst (prepare_entry self level message kwargs now_iso now_ms w)"
    by simp
  have root: "fst ` set entry \<subseteq>
           {''timestamp'', ''level'', ''message'', ''service'', ''environment'', ''version'',
            ''category'', ''event_id'', ''context''} \<union> set OPTIONAL_ROOT_FIELDS"
    unfolding e using prepare_entry_root_keys by blast
  have lands: "map_of (entry_context entry) k = Some v"
    if "distinct (map fst kwargs)" "map_of kwargs k = Some v" "v \<noteq> PNone"
       "k \<notin> set OPTIONAL_ROOT_FIELDS" "k \<noteq> ''context''" "k \<noteq> ''event_id''"
  proof -
    let ?ex = "filter (\<lambda>p. fst p \<notin> set OPTIONAL_ROOT_FIELDS)
               (AList.delete ''event_id'' (AList.delete ''context'' kwargs))"
    have d: "distinct (map fst ?ex)"
      using that(1) by (simp add: distinct_map_filter distinct_delete)
    from that(2) have "(k, v) \<in> set kwargs" by (rule map_of_SomeD)
    with that(4,5,6) have "(k, v) \<in> set ?ex" by (auto simp: AList.delete_eq)
    with d have "map_of ?ex k = Some v" by simp
    with that(3) show ?thesis
      unfolding e prepare_entry_entry_context by (simp add: map_of_merge_bindings [OF d])
  qed
  have both: "(\<exists>d. dict_get kwargs ''context'' PNone = PDict d \<and> k' \<in> fst ` set d)
            \<or> (k' \<in> {''timestamp'', ''level'', ''message'', ''service'', ''environment'',
                      ''version'', ''category''}
                \<and> (\<exists>v'. (k', v') \<in> set kwargs \<and> v' \<noteq> PNone))"
    if r: "k' \<in> fst ` set entry" and c: "k' \<in> fst ` set (entry_context entry)"
  proof -
    have ctx: "map_of (fst (prepare_entry self level message kwargs now_iso now_ms w)) ''context''
             = Some (PDict (entry_context entry))"
      unfolding e by (simp add: entry_context_def prepare_entry_context)
    from prepare_entry_context_keys [OF ctx c] root r show ?thesis by auto
  qed
  from root lands both show ?thesis by blast
qed

theorem entry_root_and_context_keys_witness:
  "distinct (map fst [(''user'', PStr ''u''), (''service'', PStr ''x'')])
   \<and> map_of [(''user'', PStr ''u''), (''service'', PStr ''x'')] ''user'' = Some (PStr ''u'')
   \<and> ''service'' \<in> fst ` set (fst (prepare_entry sample_logger ''info'' ''m''
         [(''user'', PStr ''u''), (''service'', PStr ''x'')] ''t'' 5 sample_world))
   \<and> ''service'' \<in> fst ` set (entry_context (fst (prepare_entry sample_logger ''info'' ''m''
         [(''user'', PStr ''u''), (''service'', PStr ''x'')] ''t'' 5 sample_world)))
   \<and> map_of (entry_context (fst (prepare_entry sample_logger ''info'' ''m''
         [(''user'', PStr ''u''), (''service'', PStr ''x'')] ''t'' 5 sample_world))) ''user''
       = Some (PStr ''u'')
   \<and> (\<exists>v'. (''service'', v') \<in> set [(''user'', PStr ''u''), (''service'', PStr ''x'')] \<and> v' \<noteq> PNone)"
proof -
  let ?kw = "[(''user'', PStr ''u''), (''service'', PStr ''x'')]"
  let ?p = "prepare_entry sample_logger ''info'' ''m'' ?kw ''t'' 5 sample_world"
  have p: "?p = (fst ?p, snd ?p)" by simp
  have d: "distinct (map fst ?kw)" by simp
  have u: "map_of ?kw ''user'' = Some (PStr ''u'')" by simp
  have o: "''user'' \<notin> set OPTIONAL_ROOT_FIELDS" by (simp add: OPTIONAL_ROOT_FIELDS_def)
  have r: "''service'' \<in> fst ` set (fst ?p)" by code_simp
  have c: "''service'' \<in> fst ` set (entry_context (fst ?p))" by code_simp
  have nd: "\<not> (\<exists>d. dict_get ?kw ''context'' PNone = PDict d \<and> ''service'' \<in> fst ` set d)"
    by (simp add: dict_get_def)
  from entry_root_and_context_keys [OF p, of "''user''" "PStr ''u''" "''service''"] d u o r c nd
  show ?thesis by simp
qed

section \<open>Null values\<close>

text \<open>
  Claim C4 says that a rendered entry has no key whose value is null, at the root or inside
  the context, the keys of an explicitly passed nested context object included. The
  keyword arguments are filtered on their way into the context and the root is filtered at
  the end, but the nested context object is copied as it is: for
  \<^verbatim>\<open>info("m", context={"a": None})\<close> the context of the entry is \<^verbatim>\<open>{"a": None}\<close>, and the
  machine line has \<^verbatim>\<open>"a":null\<close>.
\<close>

theorem nested_context_none_survives:
  "map_of (fst (prepare_entry sample_logger ''info'' ''m''
                  [(''context'', PDict [(''a'', PNone)])] ''t'' 5 sample_world)) ''context''
     = Some (PDict [(''a'', PNone)])
   \<and> map (\<lambda>p. contains (snd p) '':null'')
         (written (snd (info sample_platform sample_logger ''m''
                          [(''context'', PDict [(''a'', PNone)])] ''t'' 5 sample_world))) = [True]"
  by code_simp

section \<open>Event ids given by the caller\<close>

text \<open>
  Claim C10 says that with an \<^verbatim>\<open>event_id\<close> keyword the key \<^verbatim>\<open>event_id\<close> does not appear
  inside the context. It does when the nested context object passed by the caller has that
  key: the nested object is copied into the context.
\<close>

theorem event_id_inside_context_counterexample:
  "map_of (fst (prepare_entry sample_logger ''info'' ''m''
                  [(''event_id'', PStr ''custom''),
                   (''context'', PDict [(''event_id'', PStr ''nested'')])] ''t'' 5 sample_world))
     ''context'' = Some (PDict [(''event_id'', PStr ''nested'')])"
  by code_simp

text \<open>
  Claim C10, amended. A log call at or above the threshold with an \<^verbatim>\<open>event_id\<close> keyword
  that is not \<open>None\<close> emits the entry that \<^const>\<open>prepare_entry\<close> assembles; the
  \<^verbatim>\<open>event_id\<close> of that entry is the caller's value; \<^verbatim>\<open>event_id\<close> is a key of the context
  only if the nested context object of the caller has it; and the counter of the generator
  is one more than before, also after the call as a whole.
\<close>

theorem supplied_event_id_used:
  assumes "map_of kwargs ''event_id'' = Some v" and "v \<noteq> PNone"
    and "\<not> level_weight (lower level) 0 < level_threshold self"
  shows "\<exists>entry w'.
       prepare_entry self (lower level) message kwargs now_iso now_ms w = (entry, w')
     \<and> log plat self level message kwargs now_iso now_ms w = emit plat self entry w'
     \<and> map_of entry ''event_id'' = Some v
     \<and> (''event_id'' \<in> fst ` set (entry_context entry) \<longrightarrow>
          (\<exists>d. dict_get kwargs ''context'' PNone = PDict d \<and> ''event_id'' \<in> fst ` set d))
     \<and> event_id_counter w' = event_id_counter w + 1
     \<and> event_id_counter (snd (log plat self level message kwargs now_iso now_ms w))
         = event_id_counter w + 1"
proof -
  let ?p = "prepare_entry self (lower level) message kwargs now_iso now_ms w"
  have ctx: "map_of (fst ?p) ''context'' = Some (PDict (entry_context (fst ?p)))"
    by (simp add: entry_context_def prepare_entry_context)
  have nested: "''event_id'' \<in> fst ` set (entry_context (fst ?p)) \<longrightarrow>
          (\<exists>d. dict_get kwargs ''context'' PNone = PDict d \<and> ''event_id'' \<in> fst ` set d)"
    using prepare_entry_context_keys [OF ctx, of "''event_id''"] by blast
  have cnt: "event_id_counter (snd ?p) = event_id_counter w + 1"
    by (simp add: prepare_entry_snd)
  have lg: "log plat self level message kwargs now_iso now_ms w = emit plat self (fst ?p) (snd ?p)"
    using assms(3) by (rule log_passes)
  have "prepare_entry self (lower level) message kwargs now_iso now_ms w = (fst ?p, snd ?p)
     \<and> log plat self level message kwargs now_iso now_ms w = emit plat self (fst ?p) (snd ?p)
     \<and> map_of (fst ?p) ''event_id'' = Some v
     \<and> (''event_id'' \<in> fst ` set (entry_context (fst ?p)) \<longrightarrow>
          (\<exists>d. dict_get kwargs ''context'' PNone = PDict d \<and> ''event_id'' \<in> fst ` set d))
     \<and> event_id_counter (snd ?p) = event_id_counter w + 1
     \<and> event_id_counter (snd (log plat self level message kwargs now_iso now_ms w))
         = event_id_counter w + 1"
    using nested cnt lg prepare_entry_event_id [OF assms(1,2)]
    by (simp add: event_id_counter_emit)
  then show ?thesis by blast
qed

theorem supplied_event_id_used_witness:
  "map_of [(''event_id'', PStr ''custom''), (''user'', PStr ''u'')] ''event_id'' = Some (PStr ''custom'')
   \<and> PStr ''custom'' \<noteq> PNone
   \<and> \<not> level_weight (lower ''info'') 0 < level_threshold sample_logger
   \<and> (\<exists>entry w'.
         log sample_platform sample_logger ''info'' ''m''
             [(''event_id'', PStr ''custom''), (''user'', PStr ''u'')] ''t'' 5 sample_world
           = emit sample_platform sample_logger entry w'
       \<and> map_of entry ''event_id'' = Some (PStr ''custom'')
       \<and> event_id_counter w' = 1)"
proof -
  have a: "map_of [(''event_id'', PStr ''custom''), (''user'', PStr ''u'')] ''event_id''
             = Some (PStr ''custom'')" by simp
  have b: "PStr ''custom'' \<noteq> PNone" by simp
  have c: "\<not> level_weight (lower ''info'') 0 < level_threshold sample_logger" by code_simp
  have z: "event_id_counter sample_world = 0" by (simp add: sample_world_def)
  from supplied_event_id_used [OF a b c, of "''m''" "''t''" 5 sample_world sample_platform] z
  show ?thesis using a b c by auto
qed

section \<open>Facts about error serialisation\<close>

lemma safe_not_private: "k \<in> set SAFE_ATTRIBUTES \<Longrightarrow> \<not> startswith k ''_''"
  by (auto simp: SAFE_ATTRIBUTES_def)

lemma patterns_lower: "p \<in> set SENSITIVE_PATTERNS \<Longrightarrow> lower p = p"
proof -
  have "list_all (\<lambda>p. lower p = p) SENSITIVE_PATTERNS" by code_simp
  then show "p \<in> set SENSITIVE_PATTERNS \<Longrightarrow> lower p = p" by (simp add: list_all_iff)
qed

lemma fold_prefix_ascii: "(of_char c :: nat) < 128 \<Longrightarrow> fold_prefix (c # cs) = None"
  by (auto simp: fold_prefix_def)

lemma char_lower_ascii: "(of_char (char_lower c) :: nat) < 128 \<Longrightarrow> (of_char c :: nat) < 128"
  by (auto simp: char_lower_def Let_def split: if_splits)

lemma char_lower_not_ascii: "\<not> (of_char c :: nat) < 128 \<Longrightarrow> char_lower c = c"
  by (auto simp: char_lower_def Let_def)

lemma startswith_sre_fold:
  "startswith (lower s) p \<Longrightarrow> \<forall>x \<in> set p. (of_char x :: nat) < 128 \<Longrightarrow> startswith (sre_fold s) p"
proof (induction s arbitrary: p)
  case Nil
  then show ?case by (cases p) (simp_all add: lower_def)
next
  case (Cons c cs)
  show ?case
  proof (cases p)
    case Nil
    then show ?thesis by simp
  next
    case (Cons x ps)
    with Cons.prems have x: "char_lower c = x" and r: "startswith (lower cs) ps"
      and ax: "(of_char x :: nat) < 128" and aps: "\<forall>y \<in> set ps. (of_char y :: nat) < 128"
      by (simp_all add: lower_simps)
    from x ax have "(of_char c :: nat) < 128" using char_lower_ascii by blast
    then have "fold_prefix (c # cs) = None" by (rule fold_prefix_ascii)
    with x Cons.IH [OF r aps] Cons show ?thesis by simp
  qed
qed

lemma startswith_contains: "startswith t p \<Longrightarrow> contains t p"
  by (cases t; cases p) auto

lemma contains_lower_skip:
  assumes "contains (lower (sk @ rest)) p" and "\<forall>b \<in> set sk. \<not> (of_char b :: nat) < 128"
    and "p \<noteq> []" and "\<forall>x \<in> set p. (of_char x :: nat) < 128"
  shows "contains (lower rest) p"
  using assms(1,2)
proof (induction sk)
  case Nil
  then show ?case by simp
next
  case (Cons b sk)
  from assms(3) obtain x ps where p: "p = x # ps" by (cases p) auto
  from Cons.prems(2) have nb: "\<not> (of_char b :: nat) < 128" by simp
  from assms(4) p have "(of_char x :: nat) < 128" by simp
  with nb have "char_lower b \<noteq> x" using char_lower_not_ascii [OF nb] by auto
  with Cons.prems(1) p have "contains (lower (sk @ rest)) p" by (simp add: lower_simps)
  with Cons.IH Cons.prems(2) show ?case by simp
qed

lemma fold_prefix_Some:
  assumes "fold_prefix (c # cs) = Some (x, n)"
  shows "\<not> (of_char c :: nat) < 128
         \<and> (\<exists>sk. cs = sk @ drop (n - 1) cs \<and> (\<forall>b \<in> set sk. \<not> (of_char b :: nat) < 128))"
proof -
  have c: "\<not> (of_char c :: nat) < 128"
    using assms fold_prefix_ascii [of c cs] by auto
  from assms consider
      (k) bs where "n = 3" "cs = CHR 0x84 # CHR 0xAA # bs"
    | (i1) bs where "n = 2" "cs = CHR 0xB0 # bs"
    | (i2) bs where "n = 2" "cs = CHR 0xB1 # bs"
    | (s) bs where "n = 2" "cs = CHR 0xBF # bs"
    unfolding fold_prefix_def
    by (cases cs; cases "tl cs") (auto split: if_splits)
  then have "\<exists>sk. cs = sk @ drop (n - 1) cs \<and> (\<forall>b \<in> set sk. \<not> (of_char b :: nat) < 128)"
  proof cases
    case k
    then show ?thesis by (intro exI [of _ "[CHR 0x84, CHR 0xAA]"]) simp
  next
    case i1
    then show ?thesis by (intro exI [of _ "[CHR 0xB0]"]) simp
  next
    case i2
    then show ?thesis by (intro exI [of _ "[CHR 0xB1]"]) simp
  next
    case s
    then show ?thesis by (intro exI [of _ "[CHR 0xBF]"]) simp
  qed
  with c show ?thesis by simp
qed

lemma contains_sre_fold:
  assumes "p \<noteq> []" and "\<forall>x \<in> set p. (of_char x :: nat) < 128"
  shows "contains (lower s) p \<Longrightarrow> contains (sre_fold s) p"
proof (induction s rule: sre_fold.induct)
  case 1
  with assms(1) show ?case by (simp add: lower_def)
next
  case (2 c cs)
  from "2.prems" have "startswith (lower (c # cs)) p \<or> contains (lower cs) p"
    by (simp add: lower_simps)
  then show ?case
  proof
    assume "startswith (lower (c # cs)) p"
    from startswith_sre_fold [OF this assms(2)] show ?thesis by (rule startswith_contains)
  next
    assume tl: "contains (lower cs) p"
    show ?thesis
    proof (cases "fold_prefix (c # cs)")
      case None
      with "2.IH"(1) tl show ?thesis by simp
    next
      case (Some xn)
      obtain x n where xn: "xn = (x, n)" by (cases xn)
      from fold_prefix_Some [of c cs x n] Some xn obtain sk where
        sk: "cs = sk @ drop (n - 1) cs" and nsk: "\<forall>b \<in> set sk. \<not> (of_char b :: nat) < 128"
        by auto
      from tl sk have "contains (lower (sk @ drop (n - 1) cs)) p" by simp
      from contains_lower_skip [OF this nsk assms] have "contains (lower (drop (n - 1) cs)) p" .
      with "2.IH"(2) [OF Some xn [symmetric]] have "contains (sre_fold (drop (n - 1) cs)) p" by simp
      with Some xn show ?thesis by simp
    qed
  qed
qed

lemma patterns_ascii:
  "p \<in> set SENSITIVE_PATTERNS \<Longrightarrow> p \<noteq> [] \<and> (\<forall>x \<in> set p. (of_char x :: nat) < 128)"
proof -
  have "list_all (\<lambda>p. p \<noteq> [] \<and> list_all (\<lambda>x. (of_char x :: nat) < 128) p) SENSITIVE_PATTERNS"
    by code_simp
  then show "p \<in> set SENSITIVE_PATTERNS \<Longrightarrow> p \<noteq> [] \<and> (\<forall>x \<in> set p. (of_char x :: nat) < 128)"
    by (simp add: list_all_iff)
qed

lemma matches_sensitive_iff:
  "matches_sensitive s \<longleftrightarrow> (\<exists>p \<in> set SENSITIVE_PATTERNS. contains (sre_fold s) p)"
  by (auto simp: matches_sensitive_def list_ex_iff re_search_ignorecase_def patterns_lower)

lemma matches_sensitive_lower:
  assumes "\<exists>p \<in> set SENSITIVE_PATTERNS. contains (lower s) p"
  shows "matches_sensitive s"
proof -
  from assms obtain p where p: "p \<in> set SENSITIVE_PATTERNS" and c: "contains (lower s) p" by blast
  from patterns_ascii [OF p] have "p \<noteq> []" "\<forall>x \<in> set p. (of_char x :: nat) < 128" by simp_all
  from contains_sre_fold [OF this c] p show ?thesis by (auto simp: matches_sensitive_iff)
qed

lemma output_keys_not_sensitive:
  "k \<in> {''name'', ''message'', ''stack''} \<union> set SAFE_ATTRIBUTES \<Longrightarrow> \<not> matches_sensitive k"
proof -
  have "list_all (\<lambda>k. \<not> matches_sensitive k) ([''name'', ''message'', ''stack''] @ SAFE_ATTRIBUTES)"
    by code_simp
  then show "k \<in> {''name'', ''message'', ''stack''} \<union> set SAFE_ATTRIBUTES \<Longrightarrow> \<not> matches_sensitive k"
    by (auto simp: list_all_iff)
qed

lemma keys_copy_attributes:
  "fst ` set (fold copy_attribute attrs s) \<subseteq> fst ` set s \<union> set SAFE_ATTRIBUTES"
proof (induction attrs arbitrary: s)
  case Nil
  then show ?case by simp
next
  case (Cons a attrs)
  obtain k' v' where a: "a = (k', v')" by (cases a)
  have "fst ` set (copy_attribute a s) \<subseteq> fst ` set s \<union> set SAFE_ATTRIBUTES"
    unfolding a copy_attribute_def using dom_update [of k' "redact_sensitive_data v'" s]
    by (auto split: if_splits)
  with Cons.IH [of "copy_attribute a s"] show ?case by auto
qed

lemma map_of_copy_attributes:
  assumes "distinct (map fst attrs)"
  shows "map_of (fold copy_attribute attrs s) k =
     (case map_of attrs k of
        Some v \<Rightarrow> if \<not> startswith k ''_'' \<and> k \<in> set SAFE_ATTRIBUTES
                  then Some (redact_sensitive_data v) else map_of s k
      | None \<Rightarrow> map_of s k)"
  using assms
proof (induction attrs arbitrary: s)
  case Nil
  then show ?case by simp
next
  case (Cons a attrs)
  obtain k' v' where a: "a = (k', v')" by (cases a)
  from Cons.prems a have d: "distinct (map fst attrs)" and nin: "k' \<notin> fst ` set attrs" by auto
  from nin have none: "map_of attrs k' = None" by (simp add: map_of_eq_None_iff)
  show ?case
    using Cons.IH [OF d, of "copy_attribute a s"] none
    by (auto simp: a copy_attribute_def update_conv' split: option.splits)
qed

lemma keys_copy_dict:
  "fst ` set (case od of None \<Rightarrow> s0 | Some attrs \<Rightarrow> fold copy_attribute attrs s0)
     \<subseteq> fst ` set s0 \<union> set SAFE_ATTRIBUTES"
  using keys_copy_attributes by (cases od) auto

lemma serialize_error_keys:
  assumes "serialize_error e = Some d"
  shows "fst ` set d \<subseteq> {''name'', ''message'', ''stack''} \<union> set SAFE_ATTRIBUTES"
proof -
  from assms obtain exc where e: "e = Some exc" and t: "exc_truthy exc"
    by (auto simp: serialize_error_def split: option.splits if_splits)
  let ?s0 = "[(''name'', PStr (exc_type_name exc)),
              (''message'', PStr (if exc_str exc = [] then ''Error'' else exc_str exc))]"
  let ?s1 = "case exc_dict exc of None \<Rightarrow> ?s0 | Some attrs \<Rightarrow> fold copy_attribute attrs ?s0"
  have k1: "fst ` set ?s1 \<subseteq> {''name'', ''message''} \<union> set SAFE_ATTRIBUTES"
    using keys_copy_dict [of ?s0 "exc_dict exc"] by auto
  from assms have d: "d = (if exc_traceback exc \<noteq> []
                           then AList.update ''stack'' (PStr (exc_traceback exc)) ?s1 else ?s1)"
    unfolding e serialize_error_def using t by (simp add: Let_def)
  show ?thesis
    unfolding d using k1 dom_update [of "''stack''" "PStr (exc_traceback exc)" ?s1]
    by (auto split: if_splits)
qed

lemma map_of_copy_attributes_other:
  "k \<notin> set SAFE_ATTRIBUTES \<Longrightarrow> map_of (fold copy_attribute attrs s) k = map_of s k"
proof (induction attrs arbitrary: s)
  case Nil
  then show ?case by simp
next
  case (Cons a attrs)
  obtain k' v' where a: "a = (k', v')" by (cases a)
  from Cons.prems have "map_of (copy_attribute a s) k = map_of s k"
    by (auto simp: a copy_attribute_def update_conv')
  with Cons.IH [OF Cons.prems, of "copy_attribute a s"] show ?case by simp
qed

lemma serialize_error_name:
  assumes "serialize_error (Some exc) = Some d"
  shows "map_of d ''name'' = Some (PStr (exc_type_name exc))"
proof -
  have n: "''name'' \<notin> set SAFE_ATTRIBUTES" by (simp add: SAFE_ATTRIBUTES_def)
  from assms show ?thesis
    by (auto simp: serialize_error_def Let_def update_conv' map_of_copy_attributes_other [OF n]
             split: if_splits option.splits)
qed

lemma map_of_setdefault:
  "map_of (setdefault k v m) k' = (if k' = k \<and> map_of m k = None then Some v else map_of m k')"
  by (auto simp: setdefault_def dict_has_def update_conv')

lemma serialize_error_attribute:
  assumes "serialize_error (Some exc) = Some d"
    and "exc_dict exc = Some attrs" and "distinct (map fst attrs)"
    and "map_of attrs a = Some v" and "a \<in> set SAFE_ATTRIBUTES"
  shows "map_of d a = Some (redact_sensitive_data v)"
proof -
  have ns: "a \<noteq> ''stack''" using assms(5) by (auto simp: SAFE_ATTRIBUTES_def)
  have cp: "map_of (fold copy_attribute attrs s0) a = Some (redact_sensitive_data v)" for s0
    using assms(4,5) safe_not_private [OF assms(5)]
    by (simp add: map_of_copy_attributes [OF assms(3)])
  from assms(1) show ?thesis
    by (auto simp: serialize_error_def Let_def assms(2) cp update_conv' ns split: if_splits)
qed

section \<open>Allowlist and redaction\<close>

text \<open>
  Claim C5. The keys of a serialised error are among \<^verbatim>\<open>name\<close>, \<^verbatim>\<open>message\<close>,
  \<^verbatim>\<open>stack\<close> and the six allowlisted attribute names, whatever attributes the error object
  has; and an allowlisted attribute whose value is a string that contains one of the
  sensitive substrings, case ignored, is written as \<^verbatim>\<open>[REDACTED]\<close>.
\<close>

theorem serialize_error_allowlist_and_redaction:
  assumes "serialize_error (Some exc) = Some d"
  shows "fst ` set d \<subseteq> {''name'', ''message'', ''stack''} \<union> set SAFE_ATTRIBUTES
     \<and> (exc_dict exc = Some attrs \<and> distinct (map fst attrs) \<and> map_of attrs k = Some (PStr s)
          \<and> k \<in> set SAFE_ATTRIBUTES \<and> (\<exists>p \<in> set SENSITIVE_PATTERNS. contains (lower s) p)
        \<longrightarrow> map_of d k = Some (PStr ''[REDACTED]''))"
proof -
  have red: "map_of d k = Some (PStr ''[REDACTED]'')"
    if a: "exc_dict exc = Some attrs" and dd: "distinct (map fst attrs)"
      and m: "map_of attrs k = Some (PStr s)" and safe: "k \<in> set SAFE_ATTRIBUTES"
      and sens: "\<exists>p \<in> set SENSITIVE_PATTERNS. contains (lower s) p"
  proof -
    from sens have ms: "matches_sensitive s" by (rule matches_sensitive_lower)
    have ns: "k \<noteq> ''stack''" using safe by (auto simp: SAFE_ATTRIBUTES_def)
    have cp: "map_of (fold copy_attribute attrs s0) k = Some (PStr ''[REDACTED]'')" for s0
      using m safe safe_not_private [OF safe] ms
      by (simp add: map_of_copy_attributes [OF dd] redact_sensitive_data_def)
    from assms show ?thesis
      by (auto simp: serialize_error_def Let_def a cp update_conv' ns split: if_splits)
  qed
  from serialize_error_keys [OF assms] red show ?thesis by blast
qed

theorem serialize_error_allowlist_and_redaction_witness:
  "serialize_error (Some sample_exception) =
     Some [(''name'', PStr ''ValueError''), (''message'', PStr ''boom''),
           (''code'', PStr ''[REDACTED]''), (''errno'', PInt 5),
           (''stack'', PStr ''ValueError: boom'')]
   \<and> exc_dict sample_exception =
        Some [(''password'', PStr ''hunter2''), (''code'', PStr ''my token''), (''errno'', PInt 5)]
   \<and> ''code'' \<in> set SAFE_ATTRIBUTES
   \<and> (\<exists>p \<in> set SENSITIVE_PATTERNS. contains (lower ''my token'') p)
   \<and> map_of [(''name'', PStr ''ValueError''), (''message'', PStr ''boom''),
             (''code'', PStr ''[REDACTED]''), (''errno'', PInt 5),
             (''stack'', PStr ''ValueError: boom'')] ''code'' = Some (PStr ''[REDACTED]'')"
proof -
  let ?d = "[(''name'', PStr ''ValueError''), (''message'', PStr ''boom''),
             (''code'', PStr ''[REDACTED]''), (''errno'', PInt 5),
             (''stack'', PStr ''ValueError: boom'')]"
  let ?a = "[(''password'', PStr ''hunter2''), (''code'', PStr ''my token''), (''errno'', PInt 5)]"
  have ser: "serialize_error (Some sample_exception) = Some ?d" by code_simp
  have a: "exc_dict sample_exception = Some ?a" by (simp add: sample_exception_def)
  have dd: "distinct (map fst ?a)" by simp
  have m: "map_of ?a ''code'' = Some (PStr ''my token'')" by simp
  have safe: "''code'' \<in> set SAFE_ATTRIBUTES" by (simp add: SAFE_ATTRIBUTES_def)
  have "contains (lower ''my token'') ''token''" by code_simp
  moreover have "''token'' \<in> set SENSITIVE_PATTERNS" by (simp add: SENSITIVE_PATTERNS_def)
  ultimately have sens: "\<exists>p \<in> set SENSITIVE_PATTERNS. contains (lower ''my token'') p" by blast
  from serialize_error_allowlist_and_redaction [OF ser, of ?a "''code''" "''my token''"]
    a dd m safe sens
  have "map_of ?d ''code'' = Some (PStr ''[REDACTED]'')" by blast
  with ser a safe sens show ?thesis by blast
qed

text \<open>
  Claim C6 says that an attribute whose name matches the sensitive patterns comes out as
  \<^verbatim>\<open>[REDACTED]\<close>. The patterns are matched against the values, and such a name is not
  on the allowlist: the \<^verbatim>\<open>password\<close> attribute of the sample exception is not in the
  serialised error at all, while the \<^verbatim>\<open>code\<close> attribute, whose value has \<^verbatim>\<open>token\<close> in
  it, is redacted.
\<close>

theorem sensitive_attribute_name_counterexample:
  "exc_dict sample_exception =
     Some [(''password'', PStr ''hunter2''), (''code'', PStr ''my token''), (''errno'', PInt 5)]
   \<and> matches_sensitive ''password''
   \<and> log_error_context sample_exception [] =
       Inr [(''err'', PDict [(''name'', PStr ''ValueError''), (''message'', PStr ''boom''),
                            (''code'', PStr ''[REDACTED]''), (''errno'', PInt 5),
                            (''stack'', PStr ''ValueError: boom'')]),
            (''error_type'', PStr ''ValueError''), (''error_message'', PStr ''boom'')]"
  by code_simp

text \<open>
  Claim C6, amended. \<^verbatim>\<open>log_error\<close> puts the serialised error under \<^verbatim>\<open>err\<close> in the
  context. An attribute whose name matches the sensitive patterns is not a key of it. An
  allowlisted attribute is a key of it: with \<^verbatim>\<open>[REDACTED]\<close> when its value is a string
  that matches a sensitive pattern, and with its own value otherwise.
\<close>

theorem sensitive_attribute_name_not_copied:
  assumes "serialize_error (Some exc) = Some d"
    and "log_error_context exc kwargs = Inr context"
  shows "map_of context ''err'' = Some (PDict d)
     \<and> (matches_sensitive k \<longrightarrow> map_of d k = None)
     \<and> (exc_dict exc = Some attrs \<and> distinct (map fst attrs) \<and> map_of attrs a = Some v
          \<and> a \<in> set SAFE_ATTRIBUTES
        \<longrightarrow> ((\<exists>s. v = PStr s \<and> matches_sensitive s) \<longrightarrow> map_of d a = Some (PStr ''[REDACTED]''))
            \<and> (\<not> (\<exists>s. v = PStr s \<and> matches_sensitive s) \<longrightarrow> map_of d a = Some v))"
proof -
  have absent: "map_of d k = None" if "matches_sensitive k"
  proof -
    from serialize_error_keys [OF assms(1)] output_keys_not_sensitive [of k] that
    have "k \<notin> fst ` set d" by blast
    then show ?thesis by (simp add: map_of_eq_None_iff)
  qed
  from serialize_error_name [OF assms(1)] have ne: "d \<noteq> []" by auto
  from assms(2) ne have err: "map_of context ''err'' = Some (PDict d)"
    by (auto simp: log_error_context_def Let_def assms(1) map_of_setdefault update_conv'
             split: sum.splits)
  have copied: "((\<exists>s. v = PStr s \<and> matches_sensitive s) \<longrightarrow> map_of d a = Some (PStr ''[REDACTED]''))
            \<and> (\<not> (\<exists>s. v = PStr s \<and> matches_sensitive s) \<longrightarrow> map_of d a = Some v)"
    if "exc_dict exc = Some attrs" "distinct (map fst attrs)" "map_of attrs a = Some v"
       "a \<in> set SAFE_ATTRIBUTES"
    using serialize_error_attribute [OF assms(1) that]
    by (auto simp: redact_sensitive_data_def split: pyval.splits)
  from err absent copied show ?thesis by blast
qed

theorem sensitive_attribute_name_not_copied_witness:
  "matches_sensitive ''password''
   \<and> serialize_error (Some sample_exception) =
       Some [(''name'', PStr ''ValueError''), (''message'', PStr ''boom''),
             (''code'', PStr ''[REDACTED]''), (''errno'', PInt 5),
             (''stack'', PStr ''ValueError: boom'')]
   \<and> exc_dict sample_exception =
       Some [(''password'', PStr ''hunter2''), (''code'', PStr ''my token''), (''errno'', PInt 5)]
   \<and> matches_sensitive ''my token''
   \<and> map_of [(''name'', PStr ''ValueError''), (''message'', PStr ''boom''),
             (''code'', PStr ''[REDACTED]''), (''errno'', PInt 5),
             (''stack'', PStr ''ValueError: boom'')] ''password'' = None
   \<and> map_of [(''name'', PStr ''ValueError''), (''message'', PStr ''boom''),
             (''code'', PStr ''[REDACTED]''), (''errno'', PInt 5),
             (''stack'', PStr ''ValueError: boom'')] ''code'' = Some (PStr ''[REDACTED]'')
   \<and> map_of [(''name'', PStr ''ValueError''), (''message'', PStr ''boom''),
             (''code'', PStr ''[REDACTED]''), (''errno'', PInt 5),
             (''stack'', PStr ''ValueError: boom'')] ''errno'' = Some (PInt 5)"
proof -
  let ?d = "[(''name'', PStr ''ValueError''), (''message'', PStr ''boom''),
             (''code'', PStr ''[REDACTED]''), (''errno'', PInt 5),
             (''stack'', PStr ''ValueError: boom'')]"
  let ?c = "[(''err'', PDict ?d), (''error_type'', PStr ''ValueError''),
             (''error_message'', PStr ''boom'')]"
  let ?a = "[(''password'', PStr ''hunter2''), (''code'', PStr ''my token''), (''errno'', PInt 5)]"
  have ms: "matches_sensitive ''password''" by code_simp
  have mt: "matches_sensitive ''my token''" by code_simp
  have ser: "serialize_error (Some sample_exception) = Some ?d" by code_simp
  have ctx: "log_error_context sample_exception [] = Inr ?c" by code_simp
  have a: "exc_dict sample_exception = Some ?a" by (simp add: sample_exception_def)
  have dd: "distinct (map fst ?a)" by simp
  have safe: "''code'' \<in> set SAFE_ATTRIBUTES" "''errno'' \<in> set SAFE_ATTRIBUTES"
    by (simp_all add: SAFE_ATTRIBUTES_def)
  have m1: "map_of ?a ''code'' = Some (PStr ''my token'')" by simp
  have m2: "map_of ?a ''errno'' = Some (PInt 5)" by simp
  from sensitive_attribute_name_not_copied
         [OF ser ctx, of "''password''" ?a "''code''" "PStr ''my token''"] ms mt a dd safe m1
  have r1: "map_of ?d ''password'' = None" "map_of ?d ''code'' = Some (PStr ''[REDACTED]'')"
    by blast+
  from sensitive_attribute_name_not_copied
         [OF ser ctx, of "''password''" ?a "''errno''" "PInt 5"] a dd safe m2
  have r2: "map_of ?d ''errno'' = Some (PInt 5)" by blast
  from ms mt ser a r1 r2 show ?thesis by blast
qed

section \<open>Facts about event ids\<close>

lemma of_char_digit_char: "d < 10 \<Longrightarrow> (of_char (digit_char d) :: nat) = 48 + d"
  by (simp add: digit_char_def)

lemma digit_val_digit_char: "d < 10 \<Longrightarrow> digit_val (digit_char d) = Some d"
  by (simp add: digit_val_def of_char_digit_char)

lemma parse_digits_append:
  "parse_digits (xs @ ys) acc =
     (case parse_digits xs acc of None \<Rightarrow> None | Some a \<Rightarrow> parse_digits ys a)"
  by (induction xs arbitrary: acc) (auto split: option.splits)

lemma parse_digits_digits: "parse_digits (digits n) 0 = Some n"
proof (induction n rule: digits.induct)
  case (1 n)
  show ?case
  proof (cases "n < 10")
    case True
    then show ?thesis by (simp add: digits.simps [of n] digit_val_digit_char)
  next
    case False
    with 1 have ih: "parse_digits (digits (n div 10)) 0 = Some (n div 10)" by simp
    have "n mod 10 < 10" by simp
    then have dv: "digit_val (digit_char (n mod 10)) = Some (n mod 10)" by (rule digit_val_digit_char)
    from False show ?thesis
      by (simp add: digits.simps [of n] parse_digits_append ih dv)
  qed
qed

lemma digits_chars: "c \<in> set (digits n) \<Longrightarrow> (48::nat) \<le> of_char c \<and> (of_char c :: nat) \<le> 57"
proof (induction n rule: digits.induct)
  case (1 n)
  show ?case
  proof (cases "n < 10")
    case True
    with 1(2) show ?thesis by (auto simp: digits.simps [of n] of_char_digit_char)
  next
    case False
    have m: "n mod 10 < 10" by simp
    from False 1(2) have "c \<in> set (digits (n div 10)) \<or> c = digit_char (n mod 10)"
      by (auto simp: digits.simps [of n])
    then show ?thesis
    proof
      assume "c \<in> set (digits (n div 10))"
      with False 1(1) show ?thesis by simp
    next
      assume "c = digit_char (n mod 10)"
      with m show ?thesis by (simp add: of_char_digit_char)
    qed
  qed
qed

lemma digits_nonempty: "digits n \<noteq> []"
  by (simp add: digits.simps [of n])

lemma underscore_not_in_digits: "CHR ''_'' \<notin> set (digits n)"
proof
  assume "CHR ''_'' \<in> set (digits n)"
  from digits_chars [OF this] show False by simp
qed

lemma minus_not_in_digits: "CHR ''-'' \<notin> set (digits n)"
proof
  assume "CHR ''-'' \<in> set (digits n)"
  from digits_chars [OF this] show False by simp
qed

lemma underscore_not_in_str_int: "CHR ''_'' \<notin> set (str_int i)"
  by (simp add: str_int_def underscore_not_in_digits)

lemma parse_int_str_int: "parse_int (str_int i) = Some i"
proof (cases "i < 0")
  case True
  then show ?thesis
    by (simp add: parse_int_def str_int_def digits_nonempty parse_digits_digits)
next
  case False
  obtain c cs where d: "digits (nat i) = c # cs"
    using digits_nonempty [of "nat i"] by (cases "digits (nat i)") auto
  then have "c \<in> set (digits (nat i))" by simp
  with minus_not_in_digits [of "nat i"] have "c \<noteq> CHR ''-''" by auto
  with False d parse_digits_digits [of "nat i"] show ?thesis
    by (simp add: parse_int_def str_int_def)
qed

lemma counter_component_suffix:
  "counter_component (p @ CHR ''_'' # str_int c) = Some c"
proof -
  have "takeWhile (\<lambda>x. x \<noteq> CHR ''_'') (rev (str_int c) @ CHR ''_'' # rev p) = rev (str_int c)"
    using underscore_not_in_str_int [of c] by (auto simp: takeWhile_tail)
  then show ?thesis by (simp add: counter_component_def parse_int_str_int)
qed

lemma counter_component_generate:
  "counter_component (fst (generate_event_id t w)) = Some (event_id_counter w + 1)"
  using counter_component_suffix [of "''evt_'' @ str_int t" "event_id_counter w + 1"]
  by (simp add: generate_event_id_def Let_def)

lemma counter_after_generate:
  "event_id_counter (snd (generate_event_id t w)) = event_id_counter w + 1"
  by (simp add: generate_event_id_def Let_def)

lemma counter_component_nth:
  "i < length ts \<Longrightarrow>
   counter_component (fst (generate_event_ids ts w) ! i) = Some (event_id_counter w + 1 + int i)"
proof (induction ts arbitrary: w i)
  case Nil
  then show ?case by simp
next
  case (Cons t ts)
  obtain e w1 where g: "generate_event_id t w = (e, w1)" by (cases "generate_event_id t w")
  obtain ids w2 where r: "generate_event_ids ts w1 = (ids, w2)" by (cases "generate_event_ids ts w1")
  from g counter_component_generate [of t w] have e: "counter_component e = Some (event_id_counter w + 1)"
    by simp
  from g counter_after_generate [of t w] have w1: "event_id_counter w1 = event_id_counter w + 1"
    by simp
  show ?case
  proof (cases i)
    case 0
    then show ?thesis by (simp add: g r e)
  next
    case (Suc i')
    with Cons.prems have "i' < length ts" by simp
    from Cons.IH [OF this, of w1] r w1 Suc show ?thesis by (simp add: g)
  qed
qed

section \<open>Monotonic event ids\<close>

text \<open>
  Claim C7. Of the event ids made by calls of the generator one after the other, the counter
  component of a later one is strictly greater than that of an earlier one, whatever the
  clock reads.
\<close>

theorem event_id_counters_strictly_increase:
  assumes "i < j" and "j < length ts"
  shows "\<exists>a b. counter_component (fst (generate_event_ids ts w) ! i) = Some a
             \<and> counter_component (fst (generate_event_ids ts w) ! j) = Some b
             \<and> a < b"
proof -
  from assms have "i < length ts" by simp
  from counter_component_nth [OF this, of w] counter_component_nth [OF assms(2), of w] assms(1)
  show ?thesis by simp
qed

theorem event_id_counters_strictly_increase_witness:
  "(0::nat) < 2 \<and> (2::nat) < length [1700000000123, 1700000000123, 1700000000124 :: int]
   \<and> (\<exists>a b. counter_component
               (fst (generate_event_ids [1700000000123, 1700000000123, 1700000000124] sample_world) ! 0)
               = Some a
           \<and> counter_component
               (fst (generate_event_ids [1700000000123, 1700000000123, 1700000000124] sample_world) ! 2)
               = Some b
           \<and> a < b)"
proof -
  have a: "(0::nat) < 2" by simp
  have b: "(2::nat) < length [1700000000123, 1700000000123, 1700000000124 :: int]" by simp
  from event_id_counters_strictly_increase [OF a b, of sample_world] a b show ?thesis by blast
qed

section \<open>Facts about the store\<close>

lemma heap_dict_append: "heap_dict h a = Some d \<Longrightarrow> heap_dict (h @ ext) a = Some d"
  by (auto simp: heap_dict_def nth_append split: if_splits)

lemma heap_config_append: "heap_config h a = Some c \<Longrightarrow> heap_config (h @ ext) a = Some c"
  by (auto simp: heap_config_def nth_append split: if_splits)

lemma heap_logger_append: "heap_logger h a = Some l \<Longrightarrow> heap_logger (h @ ext) a = Some l"
  by (auto simp: heap_logger_def nth_append split: if_splits)

lemma logger_at_append: "logger_at h a = Some lg \<Longrightarrow> logger_at (h @ ext) a = Some lg"
  by (auto simp: logger_at_def heap_dict_append heap_config_append heap_logger_append
           split: option.splits)

lemma heap_dict_last: "heap_dict (h @ [DictObj d]) (length h) = Some d"
  by (simp add: heap_dict_def)

lemma store_item_last:
  "store_item (h @ [DictObj d]) (length h) key val = h @ [DictObj (AList.update key val d)]"
  by (simp add: store_item_def heap_dict_last)

lemma store_loop:
  "fold (\<lambda>(key, val) hh. if val \<noteq> PNone then store_item hh (length h) key val else hh) kw
     (h @ [DictObj b]) = h @ [DictObj (merge_bindings b kw)]"
proof (induction kw arbitrary: b)
  case Nil
  then show ?case by (simp add: merge_bindings_Nil)
next
  case (Cons p kw)
  obtain k v where p: "p = (k, v)" by (cases p)
  show ?case
    by (simp add: p merge_bindings_Cons store_item_last Cons.IH)
qed

lemma child_obj_result:
  assumes "logger_at h self = Some lg"
  shows "\<exists>ext. child_obj h self kw = Some (h @ ext, length (h @ ext) - 1) \<and> ext \<noteq> []
           \<and> logger_at (h @ ext) (length (h @ ext) - 1) = Some (child lg kw)"
proof -
  from assms obtain l cfg b where l: "heap_logger h self = Some l"
    and cfg: "heap_config h (config_ref l) = Some cfg"
    and b: "heap_dict h (bindings_ref l) = Some b"
    and lg: "lg = \<lparr>config = cfg, bindings = b, pretty = obj_pretty l, colorize = obj_colorize l,
                   stream = obj_stream l, level_threshold = obj_level_threshold l\<rparr>"
    by (auto simp: logger_at_def split: option.splits)
  let ?mb = "merge_bindings b kw"
  let ?h2 = "h @ [DictObj ?mb]"
  let ?lo = "\<lambda>r. LoggerObj \<lparr>config_ref = config_ref l, bindings_ref = r, obj_pretty = obj_pretty l,
                 obj_colorize = obj_colorize l, obj_stream = obj_stream l,
                 obj_level_threshold = level_weight (log_level cfg) 20\<rparr>"
  have cfg2: "heap_config ?h2 (config_ref l) = Some cfg" using cfg by (rule heap_config_append)
  have d2: "heap_dict ?h2 (length h) = Some ?mb" by (rule heap_dict_last)
  have co: "child_obj h self kw =
              new_logger ?h2 (config_ref l) (length h) (obj_pretty l) (obj_colorize l) (obj_stream l)"
    by (simp add: child_obj_def l b alloc_def store_loop)
  have ch: "child lg kw = \<lparr>config = cfg, bindings = ?mb, pretty = obj_pretty l,
               colorize = obj_colorize l, stream = obj_stream l,
               level_threshold = level_weight (log_level cfg) 20\<rparr>"
    by (simp add: child_def StructuredLogger_def lg)
  show ?thesis
  proof (cases "?mb = []")
    case True
    let ?ext = "[DictObj ?mb, DictObj [], ?lo (Suc (length h))]"
    have r: "child_obj h self kw = Some (h @ ?ext, length (h @ ?ext) - 1)"
      using True by (simp add: co new_logger_def heap_config_append [OF cfg] heap_dict_last alloc_def)
    have cfg3: "heap_config (h @ ?ext) (config_ref l) = Some cfg" using cfg by (rule heap_config_append)
    have "logger_at (h @ ?ext) (length (h @ ?ext) - 1) = Some (child lg kw)"
      using True by (simp add: logger_at_def heap_logger_def heap_dict_def nth_append heap_config_append [OF cfg] ch)
    with r show ?thesis by blast
  next
    case False
    let ?ext = "[DictObj ?mb, ?lo (length h)]"
    have r: "child_obj h self kw = Some (h @ ?ext, length (h @ ?ext) - 1)"
      using False by (simp add: co new_logger_def heap_config_append [OF cfg] heap_dict_last alloc_def)
    have cfg3: "heap_config (h @ ?ext) (config_ref l) = Some cfg" using cfg by (rule heap_config_append)
    have "logger_at (h @ ?ext) (length (h @ ?ext) - 1) = Some (child lg kw)"
      by (simp add: logger_at_def heap_logger_def heap_dict_def nth_append heap_config_append [OF cfg] ch)
    with r show ?thesis by blast
  qed
qed

lemma create_logger_obj_eq:
  assumes "logger_at h self = Some lg"
  shows "create_logger_obj h self sv en ve ca =
     child_obj h self
       [(''service'', py_or sv (PStr (service (config lg)))),
        (''environment'', py_or en (PStr (environment (config lg)))),
        (''version'', py_or ve (PStr (version (config lg)))),
        (''category'', py_or ca (PStr ''app''))]"
  using assms by (auto simp: create_logger_obj_def logger_at_def split: option.splits)

lemma derive_obj_result:
  assumes "logger_at h self = Some lg"
  shows "\<exists>ext. derive_obj h self d = Some (h @ ext, length (h @ ext) - 1) \<and> ext \<noteq> []
           \<and> logger_at (h @ ext) (length (h @ ext) - 1) = Some (derive lg d)"
proof (cases d)
  case (Child kw)
  then show ?thesis using child_obj_result [OF assms, of kw] by simp
next
  case (Bind kw)
  then show ?thesis using child_obj_result [OF assms, of kw] by (simp add: bind_obj_def bind_def)
next
  case (WithCategory c)
  then show ?thesis using child_obj_result [OF assms, of "[(''category'', c)]"]
    by (simp add: with_category_obj_def with_category_def)
next
  case (BindTrace t s)
  then show ?thesis using child_obj_result [OF assms, of "[(''trace_id'', t), (''span_id'', s)]"]
    by (simp add: bind_trace_obj_def bind_trace_def)
next
  case (WithRequest r u)
  then show ?thesis using child_obj_result [OF assms, of "[(''request_id'', r), (''user_hash'', u)]"]
    by (simp add: with_request_obj_def with_request_def)
next
  case (CreateLogger sv en ve ca)
  then show ?thesis
    using child_obj_result [OF assms, of
       "[(''service'', py_or sv (PStr (service (config lg)))),
        (''environment'', py_or en (PStr (environment (config lg)))),
        (''version'', py_or ve (PStr (version (config lg)))),
        (''category'', py_or ca (PStr ''app''))]"]
    by (simp add: create_logger_obj_eq [OF assms] create_logger_def)
qed

section \<open>Derivations do not mutate\<close>

text \<open>
  Claim C8. Each of \<^verbatim>\<open>child\<close>, \<^verbatim>\<open>bind\<close>, \<^verbatim>\<open>with_category\<close>, \<^verbatim>\<open>bind_trace\<close>,
  \<^verbatim>\<open>with_request\<close> and \<^verbatim>\<open>create_logger\<close>, called on a logger object, returns a new
  object: every object that was in the store is as it was, so the original logger still
  has its bindings, configuration and rendering mode, and the new object is the derived
  logger.
\<close>

theorem derivation_leaves_logger_unchanged:
  assumes "logger_at h self = Some lg"
  shows "\<exists>h' new. derive_obj h self d = Some (h', new)
           \<and> length h \<le> new \<and> new < length h'
           \<and> take (length h) h' = h
           \<and> logger_at h' self = Some lg
           \<and> logger_at h' new = Some (derive lg d)"
proof -
  from derive_obj_result [OF assms, of d] obtain ext where
    r: "derive_obj h self d = Some (h @ ext, length (h @ ext) - 1)" and ne: "ext \<noteq> []"
    and n: "logger_at (h @ ext) (length (h @ ext) - 1) = Some (derive lg d)" by blast
  from ne have "length h \<le> length (h @ ext) - 1" "length (h @ ext) - 1 < length (h @ ext)"
    by (cases ext; simp)+
  with r n logger_at_append [OF assms, of ext] show ?thesis by auto
qed

theorem derivation_leaves_logger_unchanged_witness:
  "logger_at sample_heap 2 = Some sample_logger
   \<and> (\<exists>h' new. derive_obj sample_heap 2 (BindTrace (PStr ''trace-123'') PNone) = Some (h', new)
         \<and> take (length sample_heap) h' = sample_heap
         \<and> logger_at h' 2 = Some sample_logger
         \<and> logger_at h' new = Some (bind_trace sample_logger (PStr ''trace-123'') PNone))"
proof -
  have a: "logger_at sample_heap 2 = Some sample_logger" by code_simp
  from derivation_leaves_logger_unchanged [OF a, of "BindTrace (PStr ''trace-123'') PNone"] a
  show ?thesis by auto
qed

section \<open>Facts about the pretty line\<close>

lemma startswith_append: "startswith (s @ r) s"
  by (induction s) auto

lemma startswith_append_left: "startswith a s \<Longrightarrow> startswith (a @ b) s"
  by (induction a s rule: startswith.induct) auto

lemma contains_append_left: "contains a s \<Longrightarrow> contains (a @ b) s"
proof (induction a)
  case Nil
  then show ?case by (cases b) auto
next
  case (Cons c cs)
  then show ?case using startswith_append_left [of "c # cs" s b] by auto
qed

lemma contains_append_right: "contains b s \<Longrightarrow> contains (a @ b) s"
  by (induction a) auto

lemma contains_self: "contains s s"
  using startswith_append [of s "[]"] by (cases s) auto

lemma contains_join: "s \<in> set parts \<Longrightarrow> contains (join sep parts) s"
proof (induction sep parts rule: join.induct)
  case (1 sep)
  then show ?case by simp
next
  case (2 sep x)
  then show ?case by (simp add: contains_self)
next
  case (3 sep x y xs)
  show ?case
  proof (cases "s = x")
    case True
    then show ?thesis using contains_append_left [OF contains_self, of x] by simp
  next
    case False
    with 3 have "contains (join sep (y # xs)) s" by simp
    then have "contains (sep @ join sep (y # xs)) s" by (rule contains_append_right)
    then have "contains (x @ sep @ join sep (y # xs)) s" by (rule contains_append_right)
    then show ?thesis by simp
  qed
qed

lemma str_items_member: "str_items vs = Some ss \<Longrightarrow> PStr s \<in> set vs \<Longrightarrow> s \<in> set ss"
proof (induction vs arbitrary: ss rule: str_items.induct)
  case 1
  then show ?case by simp
next
  case (2 x vs)
  then show ?case by auto
qed simp_all

lemma segment_in_parts:
  "set (trace_segment entry) \<union> set (duration_segment entry) \<union> set (category_segment entry)
     \<subseteq> set (pretty_parts plat self entry lv)"
  by (auto simp: pretty_parts_def)

lemma format_pretty_contains:
  assumes "format_pretty plat self entry = Inr output"
    and "PStr s \<in> set (trace_segment entry) \<union> set (duration_segment entry)"
    and "s \<noteq> []"
  shows "contains output s"
proof -
  from assms(1) obtain lv parts where
    p: "str_items (filter truthy (pretty_parts plat self entry lv)) = Some parts"
    and o: "output = join '' '' parts \<or>
            output = join '' '' parts @ [CHR 0x0A]
              @ py_str (apply_color self
                  (PStr (json_indent 0 (py_or (dict_get entry ''context'' PNone) (PDict []))))
                  COLOR_DIM)"
    by (auto simp: format_pretty_def Let_def split: pyval.splits option.splits if_splits)
  from assms(2) segment_in_parts [of entry plat self lv]
  have "PStr s \<in> set (pretty_parts plat self entry lv)" by blast
  with assms(3) have "PStr s \<in> set (filter truthy (pretty_parts plat self entry lv))" by simp
  from str_items_member [OF p this] have "s \<in> set parts" .
  then have c: "contains (join '' '' parts) s" by (rule contains_join)
  from o show ?thesis
  proof
    assume "output = join '' '' parts"
    with c show ?thesis by simp
  next
    assume r: "output = join '' '' parts @ [CHR 0x0A]
              @ py_str (apply_color self
                  (PStr (json_indent 0 (py_or (dict_get entry ''context'' PNone) (PDict []))))
                  COLOR_DIM)"
    show ?thesis unfolding r using c by (rule contains_append_left)
  qed
qed

lemma str_int_250: "str_int 250 = ''250''"
  by code_simp

lemma trace_id_optional: "''trace_id'' \<in> set OPTIONAL_ROOT_FIELDS"
  by (simp add: OPTIONAL_ROOT_FIELDS_def)

lemma duration_ms_optional: "''duration_ms'' \<in> set OPTIONAL_ROOT_FIELDS"
  by (simp add: OPTIONAL_ROOT_FIELDS_def)

lemma pretty_log_line:
  assumes "pretty self"
    and "\<not> level_weight (lower level) 0 < level_threshold self"
    and "log plat self level message kwargs now_iso now_ms w = (None, w')"
  shows "\<exists>output.
           format_pretty plat self
             (fst (prepare_entry self (lower level) message kwargs now_iso now_ms w)) = Inr output
         \<and> written w' = written w @ [(stream self, output @ linesep plat)]"
  using assms(3)
  unfolding log_passes [OF assms(2)] emit_def
  by (auto simp: assms(1) prepare_entry_snd split: sum.splits)

lemma take_chars_sample: "take_chars 8 ''trace-12345678'' = ''trace-12''"
  by code_simp

lemma str_items_append:
  "str_items (xs @ ys) =
     (case str_items xs of None \<Rightarrow> None | Some as \<Rightarrow> map_option ((@) as) (str_items ys))"
proof (induction xs)
  case Nil
  show ?case by (cases "str_items ys") simp_all
next
  case (Cons x xs)
  then show ?case
    by (cases x; cases "str_items xs"; cases "str_items ys") simp_all
qed

lemma category_strings:
  assumes "str_items (filter truthy (category_segment entry)) = Some cs"
  shows "cs = (case dict_get entry ''category'' (PStr []) of
                 PStr c \<Rightarrow> if c = [] \<or> c = ''app'' then [] else [c]
               | _ \<Rightarrow> [])"
  using assms
  by (cases "dict_get entry ''category'' (PStr [])")
     (auto simp: category_segment_def Let_def split: if_splits)

lemma trace_strings:
  "str_items (filter truthy (trace_segment entry)) =
     Some (case map_of entry ''trace_id'' of
             Some t \<Rightarrow> if truthy t then [''['' @ take_chars 8 (py_str t) @ ''...]''] else []
           | None \<Rightarrow> [])"
  by (auto simp: trace_segment_def dict_get_def Let_def split: option.splits)

lemma duration_strings:
  "str_items (filter truthy (duration_segment entry)) =
     Some (case map_of entry ''duration_ms'' of
             Some d \<Rightarrow> [''('' @ py_str d @ ''ms)'']
           | None \<Rightarrow> [])"
  by (auto simp: duration_segment_def dict_has_def dict_get_def split: option.splits)

lemma pretty_parts_strings:
  assumes "str_items (filter truthy (pretty_parts plat self entry lv)) = Some parts"
  shows "\<exists>pre msg.
           str_items (filter truthy (pretty_head plat self entry lv)) = Some pre
         \<and> str_items (filter truthy [dict_get entry ''message'' (PStr [])]) = Some msg
         \<and> parts = pre
             @ (case dict_get entry ''category'' (PStr []) of
                  PStr c \<Rightarrow> if c = [] \<or> c = ''app'' then [] else [c]
                | _ \<Rightarrow> [])
             @ (case map_of entry ''trace_id'' of
                  Some t \<Rightarrow> if truthy t then [''['' @ take_chars 8 (py_str t) @ ''...]''] else []
                | None \<Rightarrow> [])
             @ (case map_of entry ''duration_ms'' of
                  Some d \<Rightarrow> [''('' @ py_str d @ ''ms)'']
                | None \<Rightarrow> [])
             @ [''-''] @ msg"
proof -
  let ?m = "dict_get entry ''message'' (PStr [])"
  from assms obtain pre cs rest where
    pre: "str_items (filter truthy (pretty_head plat self entry lv)) = Some pre"
    and cs: "str_items (filter truthy (category_segment entry)) = Some cs"
    and rest: "str_items (filter truthy [PStr ''-'', ?m]) = Some rest"
    and parts: "parts = pre @ cs
                  @ (case map_of entry ''trace_id'' of
                       Some t \<Rightarrow> if truthy t then [''['' @ take_chars 8 (py_str t) @ ''...]''] else []
                     | None \<Rightarrow> [])
                  @ (case map_of entry ''duration_ms'' of
                       Some d \<Rightarrow> [''('' @ py_str d @ ''ms)'']
                     | None \<Rightarrow> [])
                  @ rest"
    unfolding pretty_parts_def filter_append str_items_append trace_strings duration_strings
    by (auto split: option.splits)
  from rest obtain msg where msg: "str_items (filter truthy [?m]) = Some msg"
    and r: "rest = [''-''] @ msg"
    by (auto split: if_splits)
  from pre msg parts r category_strings [OF cs] show ?thesis by simp
qed

lemma format_pretty_line:
  assumes "format_pretty plat self entry = Inr out"
  shows "\<exists>lv pre msg.
          py_or (dict_get entry ''level'' PNone) (PStr ''info'') = PStr lv
        \<and> str_items (filter truthy (pretty_head plat self entry (lower lv))) = Some pre
        \<and> str_items (filter truthy [dict_get entry ''message'' (PStr [])]) = Some msg
        \<and> out = join '' ''
                  (pre
                   @ (case dict_get entry ''category'' (PStr []) of
                        PStr c \<Rightarrow> if c = [] \<or> c = ''app'' then [] else [c]
                      | _ \<Rightarrow> [])
                   @ (case map_of entry ''trace_id'' of
                        Some t \<Rightarrow>
                          if truthy t then [''['' @ take_chars 8 (py_str t) @ ''...]''] else []
                      | None \<Rightarrow> [])
                   @ (case map_of entry ''duration_ms'' of
                        Some d \<Rightarrow> [''('' @ py_str d @ ''ms)'']
                      | None \<Rightarrow> [])
                   @ [''-''] @ msg)
                @ (if truthy (py_or (dict_get entry ''context'' PNone) (PDict []))
                   then [CHR 0x0A]
                        @ py_str (apply_color self
                            (PStr (json_indent 0 (py_or (dict_get entry ''context'' PNone) (PDict []))))
                            COLOR_DIM)
                   else [])"
proof -
  from assms obtain lv parts where
    lv: "py_or (dict_get entry ''level'' PNone) (PStr ''info'') = PStr lv"
    and p: "str_items (filter truthy (pretty_parts plat self entry (lower lv))) = Some parts"
    and o: "out = join '' '' parts
                @ (if truthy (py_or (dict_get entry ''context'' PNone) (PDict []))
                   then [CHR 0x0A]
                        @ py_str (apply_color self
                            (PStr (json_indent 0 (py_or (dict_get entry ''context'' PNone) (PDict []))))
                            COLOR_DIM)
                   else [])"
    by (auto simp: format_pretty_def Let_def split: pyval.splits option.splits if_splits)
  from pretty_parts_strings [OF p] lv o show ?thesis by blast
qed

section \<open>Segments of the pretty line\<close>

text \<open>
  Claim C9. A pretty-mode logger bound to the trace id \<^verbatim>\<open>trace-12345678\<close>, called with
  \<^verbatim>\<open>duration_ms=250\<close>, writes a line that contains \<^verbatim>\<open>[trace-12...]\<close> and
  \<^verbatim>\<open>(250ms)\<close>. In general a pretty-mode call that is not filtered writes what
  \<^verbatim>\<open>_format_pretty\<close> returns for the entry, and that text is, joined by spaces: the
  parts for time, level and service; the category, unless it is empty or \<^verbatim>\<open>app\<close>; the
  first eight characters of the trace id followed by three dots, in brackets, if the entry
  has a trace id that is not empty, and nothing otherwise; the duration with \<^verbatim>\<open>ms\<close>, in
  parentheses, if the entry has \<^verbatim>\<open>duration_ms\<close>, and nothing otherwise; a dash; and the
  message. The dump of the context follows on a new line when the context is not empty.
\<close>

theorem pretty_line_segments:
  "(pretty self
      \<and> map_of (bindings self) ''trace_id'' = Some (PStr ''trace-12345678'')
      \<and> map_of kwargs ''trace_id'' = None
      \<and> map_of kwargs ''duration_ms'' = Some (PInt 250)
      \<and> \<not> level_weight (lower level) 0 < level_threshold self
      \<and> log plat self level message kwargs now_iso now_ms w = (None, w')
    \<longrightarrow> (\<exists>line. written w' = written w @ [(stream self, line)]
              \<and> contains line ''[trace-12...]'' \<and> contains line ''(250ms)''))
   \<and> (pretty self \<and> \<not> level_weight (lower level) 0 < level_threshold self
      \<and> log plat self level message kwargs now_iso now_ms w = (None, w')
    \<longrightarrow> (\<exists>ln. format_pretty plat self
                   (fst (prepare_entry self (lower level) message kwargs now_iso now_ms w)) = Inr ln
              \<and> written w' = written w @ [(stream self, ln @ linesep plat)]))
   \<and> (format_pretty plat self entry = Inr out
    \<longrightarrow> (\<exists>lv pre msg.
          py_or (dict_get entry ''level'' PNone) (PStr ''info'') = PStr lv
        \<and> str_items (filter truthy (pretty_head plat self entry (lower lv))) = Some pre
        \<and> str_items (filter truthy [dict_get entry ''message'' (PStr [])]) = Some msg
        \<and> out = join '' ''
                  (pre
                   @ (case dict_get entry ''category'' (PStr []) of
                        PStr c \<Rightarrow> if c = [] \<or> c = ''app'' then [] else [c]
                      | _ \<Rightarrow> [])
                   @ (case map_of entry ''trace_id'' of
                        Some t \<Rightarrow>
                          if truthy t then [''['' @ take_chars 8 (py_str t) @ ''...]''] else []
                      | None \<Rightarrow> [])
                   @ (case map_of entry ''duration_ms'' of
                        Some d \<Rightarrow> [''('' @ py_str d @ ''ms)'']
                      | None \<Rightarrow> [])
                   @ [''-''] @ msg)
                @ (if truthy (py_or (dict_get entry ''context'' PNone) (PDict []))
                   then [CHR 0x0A]
                        @ py_str (apply_color self
                            (PStr (json_indent 0 (py_or (dict_get entry ''context'' PNone) (PDict []))))
                            COLOR_DIM)
                   else [])))"
proof -
  have a: "\<exists>line. written w' = written w @ [(stream self, line)]
              \<and> contains line ''[trace-12...]'' \<and> contains line ''(250ms)''"
    if p: "pretty self"
      and b: "map_of (bindings self) ''trace_id'' = Some (PStr ''trace-12345678'')"
      and nk: "map_of kwargs ''trace_id'' = None"
      and d: "map_of kwargs ''duration_ms'' = Some (PInt 250)"
      and th: "\<not> level_weight (lower level) 0 < level_threshold self"
      and lg: "log plat self level message kwargs now_iso now_ms w = (None, w')"
  proof -
    let ?e = "fst (prepare_entry self (lower level) message kwargs now_iso now_ms w)"
    from pretty_log_line [OF p th lg] obtain ln where
      f: "format_pretty plat self ?e = Inr ln"
      and wr: "written w' = written w @ [(stream self, ln @ linesep plat)]" by blast
    have t: "map_of ?e ''trace_id'' = Some (PStr ''trace-12345678'')"
      using b nk trace_id_optional by (simp add: prepare_entry_root dict_get_def)
    have du: "map_of ?e ''duration_ms'' = Some (PInt 250)"
      using d duration_ms_optional by (simp add: prepare_entry_root)
    have ts: "PStr ''[trace-12...]'' \<in> set (trace_segment ?e)"
      by (simp add: trace_segment_def dict_get_def t py_str_def take_chars_sample del: take_chars.simps)
    have ds: "PStr ''(250ms)'' \<in> set (duration_segment ?e)"
      by (simp add: duration_segment_def dict_has_def dict_get_def du py_str_def str_int_250)
    have "contains ln ''[trace-12...]''"
      using format_pretty_contains [OF f, of "''[trace-12...]''"] ts by simp
    then have c1: "contains (ln @ linesep plat) ''[trace-12...]''" by (rule contains_append_left)
    have "contains ln ''(250ms)''"
      using format_pretty_contains [OF f, of "''(250ms)''"] ds by simp
    then have c2: "contains (ln @ linesep plat) ''(250ms)''" by (rule contains_append_left)
    from wr c1 c2 show ?thesis by blast
  qed
  have g: "\<exists>ln. format_pretty plat self
                   (fst (prepare_entry self (lower level) message kwargs now_iso now_ms w)) = Inr ln
              \<and> written w' = written w @ [(stream self, ln @ linesep plat)]"
    if "pretty self" "\<not> level_weight (lower level) 0 < level_threshold self"
       "log plat self level message kwargs now_iso now_ms w = (None, w')"
    using that by (rule pretty_log_line)
  from a g format_pretty_line [of plat self entry out] show ?thesis by blast
qed

theorem pretty_line_segments_witness:
  "pretty (bind_trace sample_pretty_logger (PStr ''trace-12345678'') (PStr ''span-123''))
   \<and> log sample_platform
         (bind_trace sample_pretty_logger (PStr ''trace-12345678'') (PStr ''span-123''))
         ''info'' ''Test with trace'' [(''duration_ms'', PInt 250)]
         ''2025-01-01T12:34:56+00:00'' 5 sample_world
       = (None,
          \<lparr>event_id_counter = 1,
             written = [(None, ''12:34:56 INFO test-service [trace-12...] (250ms) - Test with trace''
                              @ [CHR 0x0A])]\<rparr>)
   \<and> (\<exists>line. written \<lparr>event_id_counter = 1,
                 written = [(None, ''12:34:56 INFO test-service [trace-12...] (250ms) - Test with trace''
                                  @ [CHR 0x0A])]\<rparr>
               = written sample_world @ [(None, line)]
           \<and> contains line ''[trace-12...]'' \<and> contains line ''(250ms)'')
   \<and> format_pretty sample_platform sample_pretty_logger
         [(''timestamp'', PStr ''2025-01-01T12:34:56+00:00''), (''level'', PStr ''info''),
          (''message'', PStr ''done''), (''service'', PStr ''svc''), (''category'', PStr ''app''),
          (''duration_ms'', PInt 7)]
       = Inr ''12:34:56 INFO svc (7ms) - done''
   \<and> (\<exists>pre msg.
         ''12:34:56 INFO svc (7ms) - done'' = join '' '' (pre @ [] @ [] @ [''(7ms)''] @ [''-''] @ msg))"
proof -
  let ?l = "bind_trace sample_pretty_logger (PStr ''trace-12345678'') (PStr ''span-123'')"
  let ?kw = "[(''duration_ms'', PInt 250)]"
  let ?w' = "\<lparr>event_id_counter = 1,
               written = [(None, ''12:34:56 INFO test-service [trace-12...] (250ms) - Test with trace''
                                @ [CHR 0x0A])]\<rparr>"
  let ?e = "[(''timestamp'', PStr ''2025-01-01T12:34:56+00:00''), (''level'', PStr ''info''),
             (''message'', PStr ''done''), (''service'', PStr ''svc''), (''category'', PStr ''app''),
             (''duration_ms'', PInt 7)]"
  let ?o = "''12:34:56 INFO svc (7ms) - done''"
  have p: "pretty ?l" by code_simp
  have b: "map_of (bindings ?l) ''trace_id'' = Some (PStr ''trace-12345678'')" by code_simp
  have nk: "map_of ?kw ''trace_id'' = None" by simp
  have d: "map_of ?kw ''duration_ms'' = Some (PInt 250)" by simp
  have th: "\<not> level_weight (lower ''info'') 0 < level_threshold ?l" by code_simp
  have lg: "log sample_platform ?l ''info'' ''Test with trace'' ?kw
              ''2025-01-01T12:34:56+00:00'' 5 sample_world = (None, ?w')" by code_simp
  have st: "stream ?l = None" by code_simp
  have f: "format_pretty sample_platform sample_pretty_logger ?e = Inr ?o" by code_simp
  have s7: "py_str (PInt 7) = ''7''" by code_simp
  have ctx: "\<not> truthy (py_or (dict_get ?e ''context'' PNone) (PDict []))"
    by (simp add: dict_get_def py_or_def)
  have cat: "dict_get ?e ''category'' (PStr []) = PStr ''app''" by (simp add: dict_get_def)
  have tr: "map_of ?e ''trace_id'' = None" by simp
  have du: "map_of ?e ''duration_ms'' = Some (PInt 7)" by simp
  note T1 = pretty_line_segments [of ?l ?kw "''info''" sample_platform "''Test with trace''"
             "''2025-01-01T12:34:56+00:00''" 5 sample_world ?w']
  from T1 p b nk d th lg have
    i: "\<exists>line. written ?w' = written sample_world @ [(stream ?l, line)]
        \<and> contains line ''[trace-12...]'' \<and> contains line ''(250ms)''" by blast
  note T2 = pretty_line_segments [where plat = sample_platform and self = sample_pretty_logger
              and entry = ?e and out = ?o]
  from T2 f have
    "\<exists>lv pre msg.
          py_or (dict_get ?e ''level'' PNone) (PStr ''info'') = PStr lv
        \<and> str_items (filter truthy (pretty_head sample_platform sample_pretty_logger ?e (lower lv)))
            = Some pre
        \<and> str_items (filter truthy [dict_get ?e ''message'' (PStr [])]) = Some msg
        \<and> ?o = join '' ''
                  (pre
                   @ (case dict_get ?e ''category'' (PStr []) of
                        PStr c \<Rightarrow> if c = [] \<or> c = ''app'' then [] else [c]
                      | _ \<Rightarrow> [])
                   @ (case map_of ?e ''trace_id'' of
                        Some t \<Rightarrow>
                          if truthy t then [''['' @ take_chars 8 (py_str t) @ ''...]''] else []
                      | None \<Rightarrow> [])
                   @ (case map_of ?e ''duration_ms'' of
                        Some d \<Rightarrow> [''('' @ py_str d @ ''ms)'']
                      | None \<Rightarrow> [])
                   @ [''-''] @ msg)
                @ (if truthy (py_or (dict_get ?e ''context'' PNone) (PDict []))
                   then [CHR 0x0A]
                        @ py_str (apply_color sample_pretty_logger
                            (PStr (json_indent 0 (py_or (dict_get ?e ''context'' PNone) (PDict []))))
                            COLOR_DIM)
                   else [])"
    by blast
  then obtain pre msg where
    "?o = join '' '' (pre @ [] @ [] @ [''(7ms)''] @ [''-''] @ msg)"
    unfolding cat tr du using ctx s7 by auto
  then have g: "\<exists>pre msg. ?o = join '' '' (pre @ [] @ [] @ [''(7ms)''] @ [''-''] @ msg)" by blast
  from i g p lg f st show ?thesis by simp
qed

end
